theory Spec2Isabelle
  imports Complex_Main
begin

section \<open>The lexer (lexer.h)\<close>

subsection \<open>Characters, tokens and the global state\<close>

text \<open>
  \<open>getchar\<close> returns an \<open>int\<close>: the next byte of standard input as a value in
  \<open>0..255\<close>, or \<open>EOF\<close>. Tokens are \<open>int\<close>s as well: a negative code of the enum
  \<open>Token\<close> for the known things, the byte itself for any other character.
\<close>

abbreviation EOF :: int where "EOF \<equiv> - 1"

abbreviation token_eof :: int where "token_eof \<equiv> - 1"
abbreviation token_def :: int where "token_def \<equiv> - 2"
abbreviation token_extern :: int where "token_extern \<equiv> - 3"
abbreviation token_identifier :: int where "token_identifier \<equiv> - 4"
abbreviation token_number :: int where "token_number \<equiv> - 5"

text \<open>The classification functions of \<open><cctype>\<close>, in the "C" locale.\<close>

definition isspace :: "int \<Rightarrow> bool" where
  "isspace c \<longleftrightarrow> c = 32 \<or> (9 \<le> c \<and> c \<le> 13)"

definition isalpha :: "int \<Rightarrow> bool" where
  "isalpha c \<longleftrightarrow> (65 \<le> c \<and> c \<le> 90) \<or> (97 \<le> c \<and> c \<le> 122)"

definition isdigit :: "int \<Rightarrow> bool" where
  "isdigit c \<longleftrightarrow> 48 \<le> c \<and> c \<le> 57"

definition isalnum :: "int \<Rightarrow> bool" where
  "isalnum c \<longleftrightarrow> isalpha c \<or> isdigit c"

definition isascii :: "int \<Rightarrow> bool" where
  "isascii c \<longleftrightarrow> 0 \<le> c \<and> c \<le> 127"

text \<open>The helper \<open>IsSpace\<close> of lexer.h; \<open>GetToken\<close> does not call it.\<close>

definition IsSpace :: "int \<Rightarrow> bool" where
  "IsSpace ch \<longleftrightarrow> ch = 32 \<or> ch = 9"

text \<open>
  The AST of ast.h. A \<open>double\<close> is modelled by the exact decimal value of the text
  it was converted from; the rounding to the nearest \<open>double\<close> is not modelled (it
  is the identity on the small integers of the examples below).
\<close>

datatype ExprAST =
    NumberExprAST rat
  | VariableExprAST string
  | BinaryExprAST char ExprAST ExprAST
  | CallExprAST string "ExprAST list"

datatype PrototypeAST = PrototypeAST string "string list"

datatype FunctionAST = FunctionAST PrototypeAST ExprAST

text \<open>
  The global and static variables of lexer.h and parser.h, and the two streams:
  \<open>input\<close> is what \<open>getchar\<close> has not read yet, \<open>err\<close> is what has been written to
  \<open>stderr\<close>, one entry for each \<open>fprintf\<close>.
\<close>

record pstate =
  input :: string
  last_char :: int
  IDENTIFIER_STR :: string
  NUM_VAL :: rat
  cur_token :: int
  BinopPrecedence :: "char \<rightharpoonup> int"
  err :: "string list"

text \<open>
  A call returns a value and the new state, or leaves through an exception of
  \<open>std::stod\<close> (nothing in these files catches it), or runs out of the fuel that
  bounds the recursion of the parser.
\<close>

datatype stod_error = invalid_argument | out_of_range

datatype 'a outcome = Returns 'a pstate | Throws stod_error | OutOfFuel

definition bind :: "'a outcome \<Rightarrow> ('a \<Rightarrow> pstate \<Rightarrow> 'b outcome) \<Rightarrow> 'b outcome" where
  "bind m f = (case m of Returns x s \<Rightarrow> f x s | Throws e \<Rightarrow> Throws e | OutOfFuel \<Rightarrow> OutOfFuel)"

definition getchar :: "pstate \<Rightarrow> int \<times> pstate" where
  "getchar s = (case input s of [] \<Rightarrow> (EOF, s) | c # cs \<Rightarrow> (of_char c, s\<lparr>input := cs\<rparr>))"

text \<open>The statement \<open>last_char = getchar();\<close>.\<close>

definition read_last_char :: "pstate \<Rightarrow> pstate" where
  "read_last_char s = (case getchar s of (c, s') \<Rightarrow> s'\<lparr>last_char := c\<rparr>)"

text \<open>
  What is left to read: the unread input, and the character held in \<open>last_char\<close>
  unless it is \<open>EOF\<close>.
\<close>

definition pending :: "pstate \<Rightarrow> nat" where
  "pending s = length (input s) + (if last_char s = EOF then 0 else 1)"

lemma pending_read_last_char_le: "pending (read_last_char s) \<le> pending s"
  by (cases "input s") (simp_all add: pending_def read_last_char_def getchar_def)

lemma pending_read_last_char_less:
  "last_char s \<noteq> EOF \<Longrightarrow> pending (read_last_char s) < pending s"
  by (cases "input s") (simp_all add: pending_def read_last_char_def getchar_def)

subsection \<open>The loops of GetToken\<close>

text \<open>\<open>while (isspace(last_char)) last_char = getchar();\<close>\<close>

function skip_space :: "pstate \<Rightarrow> pstate" where
  "skip_space s = (if isspace (last_char s) then skip_space (read_last_char s) else s)"
  by pat_completeness auto
termination
  by (relation "measure pending") (auto simp: isspace_def intro: pending_read_last_char_less)

text \<open>\<open>while (isalnum(last_char = getchar())) IDENTIFIER_STR += last_char;\<close>\<close>

function scan_identifier :: "pstate \<Rightarrow> pstate" where
  "scan_identifier s =
     (let s1 = read_last_char s in
      if isalnum (last_char s1)
      then scan_identifier (s1\<lparr>IDENTIFIER_STR := IDENTIFIER_STR s1 @ [char_of (last_char s1)]\<rparr>)
      else s1)"
  by pat_completeness auto
termination
proof (relation "measure (\<lambda>s. length (input s))")
  show "wf (measure (\<lambda>s. length (input s)))" by simp
next
  fix s s1
  assume "s1 = read_last_char s" and "isalnum (last_char s1)"
  then show "(s1\<lparr>IDENTIFIER_STR := IDENTIFIER_STR s1 @ [char_of (last_char s1)]\<rparr>, s)
      \<in> measure (\<lambda>s. length (input s))"
    by (cases "input s")
      (simp_all add: read_last_char_def getchar_def isalnum_def isalpha_def isdigit_def)
qed

text \<open>
  \<open>while (isdigit(last_char) || last_char == '.') { num_str += last_char;
  last_char = getchar(); }\<close>, with the local \<open>num_str\<close> as an argument.
\<close>

function scan_number :: "string \<Rightarrow> pstate \<Rightarrow> string \<times> pstate" where
  "scan_number num_str s =
     (if isdigit (last_char s) \<or> last_char s = of_char CHR ''.''
      then scan_number (num_str @ [char_of (last_char s)]) (read_last_char s)
      else (num_str, s))"
  by pat_completeness auto
termination
  by (relation "measure (\<lambda>(n, s). pending s)")
    (auto simp: isdigit_def intro: pending_read_last_char_less)

text \<open>
  \<open>while (last_char != EOF && last_char != '\n' && last_char != '\r')
  last_char = getchar();\<close>
\<close>

function skip_comment :: "pstate \<Rightarrow> pstate" where
  "skip_comment s =
     (if last_char s \<noteq> EOF \<and> last_char s \<noteq> 10 \<and> last_char s \<noteq> 13
      then skip_comment (read_last_char s) else s)"
  by pat_completeness auto
termination
  by (relation "measure pending") (auto intro: pending_read_last_char_less)

declare skip_space.simps [simp del] scan_identifier.simps [simp del]
  scan_number.simps [simp del] skip_comment.simps [simp del]

subsection \<open>std::stod on the text GetToken collects\<close>

text \<open>
  \<open>num_str\<close> holds digits and dots only, so of what \<open>strtod\<close> accepts only the plain
  decimal form matters: \<open>std::stod\<close> converts the longest prefix that is a run of
  digits with at most one dot in it, and ignores what follows. It throws
  \<open>std::invalid_argument\<close> when that prefix has no digit, and \<open>std::out_of_range\<close>
  when \<open>strtod\<close> reports \<open>ERANGE\<close>: the value rounds beyond the largest \<open>double\<close>, or
  is positive and below the smallest normal \<open>double\<close>.
\<close>

definition is_digit_char :: "char \<Rightarrow> bool" where
  "is_digit_char c \<longleftrightarrow> isdigit (of_char c)"

definition digits_val :: "string \<Rightarrow> nat" where
  "digits_val ds = foldl (\<lambda>a c. 10 * a + (of_char c - 48)) 0 ds"

definition out_of_double_range :: "rat \<Rightarrow> bool" where
  "out_of_double_range v \<longleftrightarrow> 2 ^ 1024 - 2 ^ 970 \<le> v \<or> (0 < v \<and> v < 1 / 2 ^ 1022)"

definition stod :: "string \<Rightarrow> stod_error + rat" where
  "stod str =
     (let int_part = takeWhile is_digit_char str;
          after_int = dropWhile is_digit_char str;
          frac_part = (case after_int of
                         [] \<Rightarrow> []
                       | c # cs \<Rightarrow> if c = CHR ''.'' then takeWhile is_digit_char cs else [])
      in if int_part = [] \<and> frac_part = [] then Inl invalid_argument
         else let v = of_nat (digits_val int_part)
                      + of_nat (digits_val frac_part) / 10 ^ length frac_part
              in if out_of_double_range v then Inl out_of_range else Inr v)"

subsection \<open>GetToken\<close>

lemma pending_skip_space_le: "pending (skip_space s) \<le> pending s"
proof (induction s rule: skip_space.induct)
  case (1 s)
  show ?case
  proof (cases "isspace (last_char s)")
    case True
    with 1 have "pending (skip_space (read_last_char s)) \<le> pending (read_last_char s)"
      by simp
    also have "\<dots> \<le> pending s" by (rule pending_read_last_char_le)
    finally show ?thesis using True by (subst skip_space.simps) simp
  next
    case False
    then show ?thesis by (subst skip_space.simps) simp
  qed
qed

lemma pending_skip_comment_le: "pending (skip_comment s) \<le> pending s"
proof (induction s rule: skip_comment.induct)
  case (1 s)
  show ?case
  proof (cases "last_char s \<noteq> EOF \<and> last_char s \<noteq> 10 \<and> last_char s \<noteq> 13")
    case True
    with 1 have "pending (skip_comment (read_last_char s)) \<le> pending (read_last_char s)"
      by simp
    also have "\<dots> \<le> pending s" by (rule pending_read_last_char_le)
    finally show ?thesis using True by (subst skip_comment.simps) simp
  next
    case False
    then show ?thesis by (subst skip_comment.simps) auto
  qed
qed

text \<open>
  \<open>last_char\<close> is a static local of \<open>GetToken\<close>, so it is a field of the state. The
  comment branch calls \<open>GetToken\<close> again, after it has read at least the \<open>#\<close>.
\<close>

function GetToken :: "pstate \<Rightarrow> int outcome" where
  "GetToken s0 =
     (let s = skip_space s0 in
      if isalpha (last_char s) then
        (let s1 = scan_identifier (s\<lparr>IDENTIFIER_STR := [char_of (last_char s)]\<rparr>) in
         if IDENTIFIER_STR s1 = ''def'' then Returns token_def s1
         else if IDENTIFIER_STR s1 = ''extern'' then Returns token_extern s1
         else Returns token_identifier s1)
      else if isdigit (last_char s) \<or> last_char s = of_char CHR ''.'' then
        (case scan_number [char_of (last_char s)] (read_last_char s) of
           (num_str, s1) \<Rightarrow>
             (case stod num_str of
                Inl e \<Rightarrow> Throws e
              | Inr v \<Rightarrow> Returns token_number (s1\<lparr>NUM_VAL := v\<rparr>)))
      else if last_char s = of_char CHR ''#''
              \<and> last_char (skip_comment (read_last_char s)) \<noteq> EOF then
        GetToken (skip_comment (read_last_char s))
      else
        (let s2 = (if last_char s = of_char CHR ''#'' then skip_comment (read_last_char s)
                   else s) in
         if last_char s2 = EOF then Returns token_eof s2
         else Returns (last_char s2) (read_last_char s2)))"
  by pat_completeness auto
termination
proof (relation "measure pending")
  show "wf (measure pending)" by simp
next
  fix s0 s
  assume s: "s = skip_space s0"
    and c: "last_char s = of_char CHR ''#'' \<and> last_char (skip_comment (read_last_char s)) \<noteq> EOF"
  have "pending (skip_comment (read_last_char s)) \<le> pending (read_last_char s)"
    by (rule pending_skip_comment_le)
  also have "\<dots> < pending s" using c by (intro pending_read_last_char_less) simp
  also have "\<dots> \<le> pending s0" unfolding s by (rule pending_skip_space_le)
  finally show "(skip_comment (read_last_char s), s0) \<in> measure pending" by simp
qed

declare GetToken.simps [simp del]

section \<open>The parser (parser.h)\<close>

subsection \<open>Token buffer and diagnostics\<close>

definition GetNextToken :: "pstate \<Rightarrow> int outcome" where
  "GetNextToken s = bind (GetToken s) (\<lambda>t s'. Returns t (s'\<lparr>cur_token := t\<rparr>))"

text \<open>\<open>fprintf(stderr, ...)\<close> appends to \<open>err\<close>.\<close>

definition fprintf_stderr :: "string \<Rightarrow> pstate \<Rightarrow> pstate" where
  "fprintf_stderr str s = s\<lparr>err := err s @ [str]\<rparr>"

text \<open>
  \<open>LogError\<close> and \<open>LogErrorP\<close> print \<open>"Error: %s\n"\<close> and return the null pointer,
  which is \<open>None\<close> here.
\<close>

definition LogError :: "string \<Rightarrow> pstate \<Rightarrow> 'a option outcome" where
  "LogError str s = Returns None (fprintf_stderr (''Error: '' @ str @ [CHR 0x0A]) s)"

definition LogErrorP :: "string \<Rightarrow> pstate \<Rightarrow> 'a option outcome" where
  "LogErrorP str s = bind (LogError str s :: unit option outcome) (\<lambda>_ s'. Returns None s')"

text \<open>The messages of the parser, in the order of the source.\<close>

definition msg_expected_close_paren :: string where
  "msg_expected_close_paren = ''expected '' @ [CHR 0x27, CHR '')'', CHR 0x27]"

definition msg_expected_comma_or_close_paren :: string where
  "msg_expected_comma_or_close_paren =
     ''Expected '' @ [CHR 0x27, CHR '')'', CHR 0x27] @ '' or ''
       @ [CHR 0x27, CHR '','', CHR 0x27] @ '' in argument list''"

definition msg_unknown_token :: string where
  "msg_unknown_token = ''unknown token when expecting an expression''"

definition msg_expected_function_name :: string where
  "msg_expected_function_name = ''Expected function name in prototype''"

definition msg_expected_open_paren_proto :: string where
  "msg_expected_open_paren_proto =
     ''Expected '' @ [CHR 0x27, CHR ''('', CHR 0x27] @ '' in prototype''"

definition msg_expected_close_paren_proto :: string where
  "msg_expected_close_paren_proto =
     ''Expected '' @ [CHR 0x27, CHR '')'', CHR 0x27] @ '' in prototype''"

subsection \<open>Expressions\<close>

definition ParseNumberExpr :: "pstate \<Rightarrow> ExprAST option outcome" where
  "ParseNumberExpr s =
     (let result = NumberExprAST (NUM_VAL s) in
      bind (GetNextToken s) (\<lambda>_ s1. Returns (Some result) s1))"

text \<open>
  \<open>BinopPrecedence[cur_token]\<close>: \<open>operator[]\<close> of \<open>std::map\<close> inserts the key with
  the value 0 when it is absent, and returns the stored value. The \<open>int\<close> token is
  converted to the \<open>char\<close> key.
\<close>

definition GetTokenPrecedence :: "pstate \<Rightarrow> int \<times> pstate" where
  "GetTokenPrecedence s =
     (if \<not> isascii (cur_token s) then (- 1, s)
      else
        let key = char_of (cur_token s);
            s' = (case BinopPrecedence s key of
                    None \<Rightarrow> s\<lparr>BinopPrecedence := (BinopPrecedence s)(key \<mapsto> 0)\<rparr>
                  | Some _ \<Rightarrow> s);
            token_prec = (case BinopPrecedence s' key of None \<Rightarrow> 0 | Some p \<Rightarrow> p)
        in if token_prec \<le> 0 then (- 1, s') else (token_prec, s'))"

text \<open>
  The mutually recursive parse functions. The first argument is fuel: every call
  passes one unit less to the calls it makes, and a call without fuel gives
  \<open>OutOfFuel\<close>. \<open>ParseArgs\<close> is the \<open>while (true)\<close> loop of \<open>ParseIdentifierExpr\<close>, with
  the vector \<open>args\<close> as an argument; the \<open>while (true)\<close> loop of \<open>ParseBinOpRHS\<close> is
  the call of \<open>ParseBinOpRHS\<close> at its end.
\<close>

fun ParseParenExpr :: "nat \<Rightarrow> pstate \<Rightarrow> ExprAST option outcome"
  and ParseArgs :: "nat \<Rightarrow> ExprAST list \<Rightarrow> pstate \<Rightarrow> ExprAST list option outcome"
  and ParseIdentifierExpr :: "nat \<Rightarrow> pstate \<Rightarrow> ExprAST option outcome"
  and ParsePrimary :: "nat \<Rightarrow> pstate \<Rightarrow> ExprAST option outcome"
  and ParseExpression :: "nat \<Rightarrow> pstate \<Rightarrow> ExprAST option outcome"
  and ParseBinOpRHS :: "nat \<Rightarrow> int \<Rightarrow> ExprAST \<Rightarrow> pstate \<Rightarrow> ExprAST option outcome"
where
  "ParseParenExpr 0 s = OutOfFuel"
| "ParseParenExpr (Suc n) s =
     bind (GetNextToken s) (\<lambda>_ s1.
     bind (ParseExpression n s1) (\<lambda>V s2.
       case V of
         None \<Rightarrow> Returns None s2
       | Some v \<Rightarrow>
           if cur_token s2 \<noteq> of_char CHR '')'' then LogError msg_expected_close_paren s2
           else bind (GetNextToken s2) (\<lambda>_ s3. Returns (Some v) s3)))"
| "ParseArgs 0 args s = OutOfFuel"
| "ParseArgs (Suc n) args s =
     bind (ParseExpression n s) (\<lambda>arg s1.
       case arg of
         None \<Rightarrow> Returns None s1
       | Some a \<Rightarrow>
           if cur_token s1 = of_char CHR '')'' then Returns (Some (args @ [a])) s1
           else if cur_token s1 \<noteq> of_char CHR '','' then
             LogError msg_expected_comma_or_close_paren s1
           else bind (GetNextToken s1) (\<lambda>_ s2. ParseArgs n (args @ [a]) s2))"
| "ParseIdentifierExpr 0 s = OutOfFuel"
| "ParseIdentifierExpr (Suc n) s =
     (let id_name = IDENTIFIER_STR s in
      bind (GetNextToken s) (\<lambda>_ s1.
        if cur_token s1 \<noteq> of_char CHR ''('' then Returns (Some (VariableExprAST id_name)) s1
        else
          bind (GetNextToken s1) (\<lambda>_ s2.
          bind (if cur_token s2 \<noteq> of_char CHR '')'' then ParseArgs n [] s2
                else Returns (Some []) s2) (\<lambda>args s3.
            case args of
              None \<Rightarrow> Returns None s3
            | Some as \<Rightarrow>
                bind (GetNextToken s3) (\<lambda>_ s4.
                  Returns (Some (CallExprAST id_name as)) s4)))))"
| "ParsePrimary 0 s = OutOfFuel"
| "ParsePrimary (Suc n) s =
     (if cur_token s = token_identifier then ParseIdentifierExpr n s
      else if cur_token s = token_number then ParseNumberExpr s
      else if cur_token s = of_char CHR ''('' then ParseParenExpr n s
      else LogError msg_unknown_token s)"
| "ParseExpression 0 s = OutOfFuel"
| "ParseExpression (Suc n) s =
     bind (ParsePrimary n s) (\<lambda>LHS s1.
       case LHS of
         None \<Rightarrow> Returns None s1
       | Some lhs \<Rightarrow> ParseBinOpRHS n 0 lhs s1)"
| "ParseBinOpRHS 0 expr_prec LHS s = OutOfFuel"
| "ParseBinOpRHS (Suc n) expr_prec LHS s =
     (case GetTokenPrecedence s of
        (tok_prec, s0) \<Rightarrow>
          if tok_prec < expr_prec then Returns (Some LHS) s0
          else
            let binop = cur_token s0 in
            bind (GetNextToken s0) (\<lambda>_ s1.
            bind (ParsePrimary n s1) (\<lambda>RHS s2.
              case RHS of
                None \<Rightarrow> Returns None s2
              | Some rhs \<Rightarrow>
                  (case GetTokenPrecedence s2 of
                     (next_prec, s3) \<Rightarrow>
                       bind (if tok_prec < next_prec then ParseBinOpRHS n (tok_prec + 1) rhs s3
                             else Returns (Some rhs) s3) (\<lambda>RHS' s4.
                         case RHS' of
                           None \<Rightarrow> Returns None s4
                         | Some rhs' \<Rightarrow>
                             ParseBinOpRHS n expr_prec
                               (BinaryExprAST (char_of binop) LHS rhs') s4)))))"

subsection \<open>What a token costs\<close>

text \<open>
  \<open>GetToken\<close> never gives back input, and every token but \<open>token_eof\<close> uses up some
  of it. The loop of \<open>ParsePrototype\<close> terminates for this reason.
\<close>

lemma pending_IDENTIFIER_STR_update [simp]:
  "pending (s\<lparr>IDENTIFIER_STR := x\<rparr>) = pending s"
  by (simp add: pending_def)

lemma pending_NUM_VAL_update [simp]: "pending (s\<lparr>NUM_VAL := x\<rparr>) = pending s"
  by (simp add: pending_def)

lemma pending_cur_token_update [simp]: "pending (s\<lparr>cur_token := x\<rparr>) = pending s"
  by (simp add: pending_def)

lemma pending_BinopPrecedence_update [simp]:
  "pending (s\<lparr>BinopPrecedence := x\<rparr>) = pending s"
  by (simp add: pending_def)

lemma pending_err_update [simp]: "pending (s\<lparr>err := x\<rparr>) = pending s"
  by (simp add: pending_def)

lemma isalnum_not_EOF: "isalnum c \<Longrightarrow> c \<noteq> EOF"
  by (auto simp: isalnum_def isalpha_def isdigit_def)

lemma pending_scan_identifier_less:
  "last_char s \<noteq> EOF \<Longrightarrow> pending (scan_identifier s) < pending s"
proof (induction s rule: scan_identifier.induct)
  case (1 s)
  let ?s1 = "read_last_char s"
  have less: "pending ?s1 < pending s"
    using "1.prems" by (rule pending_read_last_char_less)
  show ?case
  proof (cases "isalnum (last_char ?s1)")
    case True
    let ?s2 = "?s1\<lparr>IDENTIFIER_STR := IDENTIFIER_STR ?s1 @ [char_of (last_char ?s1)]\<rparr>"
    have "last_char ?s2 \<noteq> EOF" using True by (simp add: isalnum_not_EOF)
    with "1.IH" [OF refl True] have "pending (scan_identifier ?s2) < pending ?s2" .
    with less True show ?thesis
      by (subst scan_identifier.simps) (simp add: Let_def)
  next
    case False
    with less show ?thesis
      by (subst scan_identifier.simps) (simp add: Let_def)
  qed
qed

lemma pending_scan_number_le: "pending (snd (scan_number num_str s)) \<le> pending s"
proof (induction num_str s rule: scan_number.induct)
  case (1 num_str s)
  show ?case
  proof (cases "isdigit (last_char s) \<or> last_char s = of_char CHR ''.''")
    case True
    with 1 have "pending (snd (scan_number (num_str @ [char_of (last_char s)])
        (read_last_char s))) \<le> pending (read_last_char s)"
      by simp
    also have "\<dots> \<le> pending s" by (rule pending_read_last_char_le)
    finally show ?thesis using True by (subst scan_number.simps) simp
  next
    case False
    then show ?thesis by (subst scan_number.simps) simp
  qed
qed

lemma isalpha_not_EOF: "isalpha c \<Longrightarrow> c \<noteq> EOF"
  by (auto simp: isalpha_def)

lemma isdigit_not_EOF: "isdigit c \<Longrightarrow> c \<noteq> EOF"
  by (auto simp: isdigit_def)

lemma GetToken_pending:
  "GetToken s0 = Returns t s' \<Longrightarrow>
     pending s' \<le> pending s0 \<and> (t \<noteq> token_eof \<longrightarrow> pending s' < pending s0)"
proof (induction s0 arbitrary: t s' rule: GetToken.induct)
  case (1 s0)
  define s where "s = skip_space s0"
  have s_le: "pending s \<le> pending s0"
    unfolding s_def by (rule pending_skip_space_le)
  note eq = "1.prems" [unfolded GetToken.simps [of s0], folded s_def]
  show ?case
  proof (cases "isalpha (last_char s)")
    case True
    have "pending (scan_identifier (s\<lparr>IDENTIFIER_STR := [char_of (last_char s)]\<rparr>))
        < pending (s\<lparr>IDENTIFIER_STR := [char_of (last_char s)]\<rparr>)"
      using True by (intro pending_scan_identifier_less) (simp add: isalpha_not_EOF)
    with eq True s_le show ?thesis
      by (auto simp: Let_def split: if_splits)
  next
    case notalpha: False
    show ?thesis
    proof (cases "isdigit (last_char s) \<or> last_char s = of_char CHR ''.''")
      case True
      then have ne: "last_char s \<noteq> EOF" by (auto simp: isdigit_not_EOF)
      obtain num_str s1 where sn: "scan_number [char_of (last_char s)] (read_last_char s)
          = (num_str, s1)"
        by (cases "scan_number [char_of (last_char s)] (read_last_char s)")
      have "pending s1 \<le> pending (read_last_char s)"
        using pending_scan_number_le [of "[char_of (last_char s)]" "read_last_char s"]
        by (simp add: sn)
      also have "\<dots> < pending s" using ne by (rule pending_read_last_char_less)
      finally have "pending s1 < pending s0" using s_le by simp
      with eq notalpha True sn show ?thesis
        by (auto simp: Let_def split: sum.splits)
    next
      case notnum: False
      let ?c = "skip_comment (read_last_char s)"
      show ?thesis
      proof (cases "last_char s = of_char CHR ''#''")
        case hash: True
        have "pending ?c \<le> pending (read_last_char s)" by (rule pending_skip_comment_le)
        also have "\<dots> < pending s" using hash by (intro pending_read_last_char_less) simp
        finally have c_less: "pending ?c < pending s0" using s_le by simp
        show ?thesis
        proof (cases "last_char ?c \<noteq> EOF")
          case True
          with eq notalpha notnum hash have "GetToken ?c = Returns t s'"
            by (simp add: Let_def)
          from "1.IH" [OF s_def notalpha notnum _ this] hash True
          have "pending s' \<le> pending ?c" by simp
          with c_less show ?thesis by simp
        next
          case False
          with eq notalpha notnum hash c_less show ?thesis
            by (auto simp: Let_def)
        qed
      next
        case nohash: False
        show ?thesis
        proof (cases "last_char s = EOF")
          case True
          with eq notalpha notnum nohash s_le show ?thesis
            by (auto simp: Let_def)
        next
          case False
          then have "pending (read_last_char s) < pending s"
            by (rule pending_read_last_char_less)
          with eq notalpha notnum nohash False s_le show ?thesis
            by (auto simp: Let_def)
        qed
      qed
    qed
  qed
qed

lemma GetNextToken_pending:
  "GetNextToken s = Returns t s' \<Longrightarrow>
     pending s' \<le> pending s \<and> (t \<noteq> token_eof \<longrightarrow> pending s' < pending s)"
  by (cases "GetToken s") (auto simp: GetNextToken_def bind_def dest: GetToken_pending)

lemma GetNextToken_cur_token: "GetNextToken s = Returns t s' \<Longrightarrow> cur_token s' = t"
  by (cases "GetToken s") (auto simp: GetNextToken_def bind_def)

subsection \<open>Prototypes and definitions\<close>

text \<open>
  \<open>while (GetNextToken() == Token::token_identifier)
  arg_names.push_back(IDENTIFIER_STR);\<close>, with the vector as an argument.
\<close>

function read_arg_names :: "string list \<Rightarrow> pstate \<Rightarrow> string list outcome" where
  "read_arg_names arg_names s =
     (case GetNextToken s of
        Returns t s1 \<Rightarrow>
          if t = token_identifier then read_arg_names (arg_names @ [IDENTIFIER_STR s1]) s1
          else Returns arg_names s1
      | Throws e \<Rightarrow> Throws e
      | OutOfFuel \<Rightarrow> OutOfFuel)"
  by pat_completeness auto
termination
  by (relation "measure (\<lambda>(a, s). pending s)") (auto dest: GetNextToken_pending)

declare read_arg_names.simps [simp del]

definition ParsePrototype :: "pstate \<Rightarrow> PrototypeAST option outcome" where
  "ParsePrototype s =
     (if cur_token s \<noteq> token_identifier then LogErrorP msg_expected_function_name s
      else
        let fn_name = IDENTIFIER_STR s in
        bind (GetNextToken s) (\<lambda>_ s1.
          if cur_token s1 \<noteq> of_char CHR ''('' then LogErrorP msg_expected_open_paren_proto s1
          else
            bind (read_arg_names [] s1) (\<lambda>arg_names s2.
              if cur_token s2 \<noteq> of_char CHR '')'' then
                LogErrorP msg_expected_close_paren_proto s2
              else
                bind (GetNextToken s2) (\<lambda>_ s3.
                  Returns (Some (PrototypeAST fn_name arg_names)) s3))))"

definition ParseDefinition :: "nat \<Rightarrow> pstate \<Rightarrow> FunctionAST option outcome" where
  "ParseDefinition n s =
     bind (GetNextToken s) (\<lambda>_ s1.
     bind (ParsePrototype s1) (\<lambda>Proto s2.
       case Proto of
         None \<Rightarrow> Returns None s2
       | Some proto \<Rightarrow>
           bind (ParseExpression n s2) (\<lambda>E s3.
             case E of
               Some e \<Rightarrow> Returns (Some (FunctionAST proto e)) s3
             | None \<Rightarrow> Returns None s3)))"

definition ParseExtern :: "pstate \<Rightarrow> PrototypeAST option outcome" where
  "ParseExtern s = bind (GetNextToken s) (\<lambda>_ s1. ParsePrototype s1)"

definition ParseTopLevelExpr :: "nat \<Rightarrow> pstate \<Rightarrow> FunctionAST option outcome" where
  "ParseTopLevelExpr n s =
     bind (ParseExpression n s) (\<lambda>E s1.
       case E of
         Some e \<Rightarrow> Returns (Some (FunctionAST (PrototypeAST [] []) e)) s1
       | None \<Rightarrow> Returns None s1)"

subsection \<open>Top-level parsing\<close>

definition HandleDefinition :: "nat \<Rightarrow> pstate \<Rightarrow> unit outcome" where
  "HandleDefinition n s =
     bind (ParseDefinition n s) (\<lambda>r s1.
       case r of
         Some _ \<Rightarrow>
           Returns () (fprintf_stderr (''Parsed a function definition.'' @ [CHR 0x0A]) s1)
       | None \<Rightarrow> bind (GetNextToken s1) (\<lambda>_ s2. Returns () s2))"

definition HandleExtern :: "pstate \<Rightarrow> unit outcome" where
  "HandleExtern s =
     bind (ParseExtern s) (\<lambda>r s1.
       case r of
         Some _ \<Rightarrow> Returns () (fprintf_stderr (''Parsed an extern'' @ [CHR 0x0A]) s1)
       | None \<Rightarrow> bind (GetNextToken s1) (\<lambda>_ s2. Returns () s2))"

definition HandleTopLevelExpr :: "nat \<Rightarrow> pstate \<Rightarrow> unit outcome" where
  "HandleTopLevelExpr n s =
     bind (ParseTopLevelExpr n s) (\<lambda>r s1.
       case r of
         Some _ \<Rightarrow>
           Returns () (fprintf_stderr (''Parsed a top-level expression'' @ [CHR 0x0A]) s1)
       | None \<Rightarrow> bind (GetNextToken s1) (\<lambda>_ s2. Returns () s2))"

text \<open>
  \<open>MainLoop\<close>: one unit of fuel for each turn of \<open>while (true)\<close>; the handlers get
  what is left.
\<close>

fun MainLoop :: "nat \<Rightarrow> pstate \<Rightarrow> unit outcome" where
  "MainLoop 0 s = OutOfFuel"
| "MainLoop (Suc n) s =
     (let s0 = fprintf_stderr ''ready> '' s in
      if cur_token s0 = token_eof then Returns () s0
      else if cur_token s0 = of_char CHR '';'' then
        bind (GetNextToken s0) (\<lambda>_ s1. MainLoop n s1)
      else if cur_token s0 = token_def then
        bind (HandleDefinition n s0) (\<lambda>_ s1. MainLoop n s1)
      else if cur_token s0 = token_extern then
        bind (HandleExtern s0) (\<lambda>_ s1. MainLoop n s1)
      else bind (HandleTopLevelExpr n s0) (\<lambda>_ s1. MainLoop n s1))"

subsection \<open>The driver\<close>

text \<open>
  Modelled from the spec: main.cpp is not among the sources. The spec gives the
  reference precedence table, and has every parse function entered with the
  lookahead buffer already holding the first token of its construct: the driver
  installs the table and reads the first token. The other variables start as
  their declarations in lexer.h and parser.h leave them.
\<close>

definition reference_table :: "char \<rightharpoonup> int" where
  "reference_table =
     [CHR ''<'' \<mapsto> 10, CHR ''+'' \<mapsto> 20, CHR ''-'' \<mapsto> 20, CHR ''*'' \<mapsto> 40]"

definition initial :: "(char \<rightharpoonup> int) \<Rightarrow> string \<Rightarrow> pstate" where
  "initial table text =
     \<lparr>input = text, last_char = of_char CHR '' '', IDENTIFIER_STR = [], NUM_VAL = 0,
      cur_token = 0, BinopPrecedence = table, err = []\<rparr>"

definition start :: "(char \<rightharpoonup> int) \<Rightarrow> string \<Rightarrow> int outcome" where
  "start table text = GetNextToken (initial table text)"

text \<open>
  Modelled from the spec: the driver's use of the parse functions on a text.
  Each primes the lookahead buffer and calls the parse function once.
\<close>

definition parse_expression :: "(char \<rightharpoonup> int) \<Rightarrow> string \<Rightarrow> nat \<Rightarrow> ExprAST option outcome" where
  "parse_expression table text n = bind (start table text) (\<lambda>_ s. ParseExpression n s)"

definition parse_definition :: "(char \<rightharpoonup> int) \<Rightarrow> string \<Rightarrow> nat \<Rightarrow> FunctionAST option outcome" where
  "parse_definition table text n = bind (start table text) (\<lambda>_ s. ParseDefinition n s)"

definition main_loop :: "(char \<rightharpoonup> int) \<Rightarrow> string \<Rightarrow> nat \<Rightarrow> unit outcome" where
  "main_loop table text n = bind (start table text) (\<lambda>_ s. MainLoop n s)"

section \<open>Running the model\<close>

subsection \<open>Sequencing\<close>

lemma bind_Returns [simp]: "bind (Returns x s) f = f x s"
  by (simp add: bind_def)

lemma bind_Throws [simp]: "bind (Throws e) f = Throws e"
  by (simp add: bind_def)

lemma bind_OutOfFuel [simp]: "bind OutOfFuel f = OutOfFuel"
  by (simp add: bind_def)

text \<open>The continuation of a \<open>bind\<close> is looked at only once its first part has a value.\<close>

lemma bind_weak_cong [cong]: "m = m' \<Longrightarrow> bind m f = bind m' f"
  by simp

subsection \<open>Characters and numbers\<close>

lemma of_char_ge0 [simp]: "0 \<le> (of_char c :: int)"
  by (metis of_nat_of_char of_nat_0_le_iff)

lemma of_char_ne_EOF [simp]: "(of_char c :: int) \<noteq> - 1"
  using of_char_ge0 [of c] by linarith

lemma of_char_less_256: "(of_char c :: int) < 256"
proof -
  have "(of_char c :: int) = of_char (char_of (of_char c :: int))" by simp
  also have "\<dots> = of_char c mod 256" by (rule of_char_of)
  finally have "(of_char c :: int) = of_char c mod 256" .
  then show ?thesis by (metis pos_mod_bound zero_less_numeral)
qed

lemma char_of_eq_char_iff: "char_of (n::int) = c \<longleftrightarrow> n mod 256 = of_char c"
proof -
  have "char_of n = c \<longleftrightarrow> char_of n = char_of (of_char c :: int)" by simp
  also have "\<dots> \<longleftrightarrow> n mod 256 = of_char c mod 256" by (rule char_of_quasi_inj)
  finally show ?thesis by simp
qed

lemma nat_of_char_char_of: "(of_char (char_of (n::int)) :: nat) = nat (n mod 256)"
proof -
  have "int (of_char (char_of n)) = of_char (char_of n)" by (rule of_nat_of_char)
  also have "\<dots> = n mod 256" by (rule of_char_of)
  finally show ?thesis by linarith
qed

lemma double_range_ok:
  "v = 0 \<or> 1 / 1000 \<le> v \<Longrightarrow> v \<le> 1000000 \<Longrightarrow> \<not> out_of_double_range v"
  unfolding out_of_double_range_def by auto

lemma double_range_of_nat: "k \<le> 1000000 \<Longrightarrow> \<not> out_of_double_range (of_nat k)"
proof (rule double_range_ok)
  show "rat_of_nat k = 0 \<or> 1 / 1000 \<le> rat_of_nat k"
  proof (cases "k = 0")
    case False
    then have "1 \<le> rat_of_nat k" by simp
    then show ?thesis by simp
  qed simp
next
  assume "k \<le> 1000000"
  then have "rat_of_nat k \<le> rat_of_nat 1000000" by (simp only: of_nat_le_iff)
  then show "rat_of_nat k \<le> 1000000" by simp
qed

subsection \<open>Fuel given as a numeral\<close>

lemmas fuel_numeral =
  ParseParenExpr.simps(2) [of "pred_numeral k", folded numeral_eq_Suc]
  ParseArgs.simps(2) [of "pred_numeral k", folded numeral_eq_Suc]
  ParseIdentifierExpr.simps(2) [of "pred_numeral k", folded numeral_eq_Suc]
  ParsePrimary.simps(2) [of "pred_numeral k", folded numeral_eq_Suc]
  ParseExpression.simps(2) [of "pred_numeral k", folded numeral_eq_Suc]
  ParseBinOpRHS.simps(2) [of "pred_numeral k", folded numeral_eq_Suc]
  MainLoop.simps(2) [of "pred_numeral k", folded numeral_eq_Suc]
  ParseParenExpr.simps(2) [of "pred_numeral k + m", folded add_Suc, folded numeral_eq_Suc]
  ParseArgs.simps(2) [of "pred_numeral k + m", folded add_Suc, folded numeral_eq_Suc]
  ParseIdentifierExpr.simps(2) [of "pred_numeral k + m", folded add_Suc, folded numeral_eq_Suc]
  ParsePrimary.simps(2) [of "pred_numeral k + m", folded add_Suc, folded numeral_eq_Suc]
  ParseExpression.simps(2) [of "pred_numeral k + m", folded add_Suc, folded numeral_eq_Suc]
  ParseBinOpRHS.simps(2) [of "pred_numeral k + m", folded add_Suc, folded numeral_eq_Suc]
  MainLoop.simps(2) [of "pred_numeral k + m", folded add_Suc, folded numeral_eq_Suc]
  for k m

text \<open>The equations that run the lexer and the parser on a given text.\<close>

lemmas run_text =
  parse_expression_def parse_definition_def main_loop_def
  start_def initial_def reference_table_def GetNextToken_def GetToken.simps
  skip_space.simps scan_number.simps scan_identifier.simps skip_comment.simps
  read_arg_names.simps read_last_char_def getchar_def
  isspace_def isalpha_def isdigit_def isalnum_def isascii_def
  stod_def is_digit_char_def digits_val_def double_range_ok
  ParseNumberExpr_def GetTokenPrecedence_def ParsePrototype_def ParseDefinition_def
  ParseExtern_def ParseTopLevelExpr_def HandleDefinition_def HandleExtern_def
  HandleTopLevelExpr_def LogError_def LogErrorP_def fprintf_stderr_def
  Let_def fuel_numeral char_of_eq_char_iff nat_of_char_char_of

section \<open>Tokens of a text\<close>

text \<open>
  Between two calls of \<open>GetToken\<close> the text still to be tokenised is the character
  in \<open>last_char\<close> followed by the unread input. \<open>positioned cs s\<close> is the state \<open>s\<close>
  with the lexer standing before the text \<open>cs\<close>.
\<close>

definition positioned :: "string \<Rightarrow> pstate \<Rightarrow> pstate" where
  "positioned cs s =
     (case cs of
        [] \<Rightarrow> s\<lparr>input := [], last_char := EOF\<rparr>
      | c # cs' \<Rightarrow> s\<lparr>input := cs', last_char := of_char c\<rparr>)"

text \<open>
  A character that is a token by itself; what may follow a number; what may follow
  an identifier.
\<close>

definition punct :: "char \<Rightarrow> bool" where
  "punct c \<longleftrightarrow> \<not> isspace (of_char c) \<and> \<not> isalpha (of_char c) \<and> \<not> isdigit (of_char c)
     \<and> (of_char c :: int) \<noteq> 46 \<and> (of_char c :: int) \<noteq> 35"

definition number_ends :: "string \<Rightarrow> bool" where
  "number_ends cs \<longleftrightarrow>
     (case cs of [] \<Rightarrow> True | c # _ \<Rightarrow> \<not> isdigit (of_char c) \<and> (of_char c :: int) \<noteq> 46)"

definition identifier_ends :: "string \<Rightarrow> bool" where
  "identifier_ends cs \<longleftrightarrow> (case cs of [] \<Rightarrow> True | c # _ \<Rightarrow> \<not> isalnum (of_char c))"

lemma initial_positioned:
  "initial table text = positioned (CHR '' '' # text) (initial table [])"
  by (simp add: initial_def positioned_def)

lemma positioned_fields [simp]:
  "IDENTIFIER_STR (positioned cs s) = IDENTIFIER_STR s"
  "NUM_VAL (positioned cs s) = NUM_VAL s"
  "cur_token (positioned cs s) = cur_token s"
  "BinopPrecedence (positioned cs s) = BinopPrecedence s"
  "err (positioned cs s) = err s"
  by (simp_all add: positioned_def split: list.splits)

lemma positioned_updates [simp]:
  "(positioned cs s)\<lparr>IDENTIFIER_STR := i\<rparr> = positioned cs (s\<lparr>IDENTIFIER_STR := i\<rparr>)"
  "(positioned cs s)\<lparr>NUM_VAL := v\<rparr> = positioned cs (s\<lparr>NUM_VAL := v\<rparr>)"
  "(positioned cs s)\<lparr>cur_token := t\<rparr> = positioned cs (s\<lparr>cur_token := t\<rparr>)"
  "(positioned cs s)\<lparr>BinopPrecedence := b\<rparr> = positioned cs (s\<lparr>BinopPrecedence := b\<rparr>)"
  "(positioned cs s)\<lparr>err := e\<rparr> = positioned cs (s\<lparr>err := e\<rparr>)"
  by (simp_all add: positioned_def split: list.splits)

lemma positioned_positioned [simp]: "positioned cs (positioned cs' s) = positioned cs s"
  by (simp add: positioned_def split: list.splits)

lemma read_last_char_positioned [simp]:
  "read_last_char (positioned (c # cs) s) = positioned cs s"
  by (cases cs) (simp_all add: positioned_def read_last_char_def getchar_def)

lemma read_last_char_positioned_Nil [simp]:
  "read_last_char (positioned [] s) = positioned [] s"
  by (simp add: positioned_def read_last_char_def getchar_def)

lemma last_char_positioned_Cons [simp]: "last_char (positioned (c # cs) s) = of_char c"
  by (simp add: positioned_def)

lemma last_char_positioned_Nil [simp]: "last_char (positioned [] s) = EOF"
  by (simp add: positioned_def)

lemma input_positioned_Cons [simp]: "input (positioned (c # cs) s) = cs"
  by (simp add: positioned_def)

lemma input_positioned_Nil [simp]: "input (positioned [] s) = []"
  by (simp add: positioned_def)

subsection \<open>White space\<close>

lemma skip_space_id: "\<not> isspace (last_char s) \<Longrightarrow> skip_space s = s"
  by (subst skip_space.simps) simp

lemma skip_space_not_space: "\<not> isspace (last_char (skip_space s))"
  by (induction s rule: skip_space.induct) (subst skip_space.simps, simp)

lemma skip_space_idem: "skip_space (skip_space s) = skip_space s"
  by (rule skip_space_id) (rule skip_space_not_space)

lemma GetToken_skip_space: "GetToken (skip_space s) = GetToken s"
  by (subst GetToken.simps, subst (2) GetToken.simps) (simp only: skip_space_idem)

lemma GetToken_space:
  assumes "isspace (of_char c)"
  shows "GetToken (positioned (c # cs) s) = GetToken (positioned cs s)"
proof -
  have "skip_space (positioned (c # cs) s) = skip_space (positioned cs s)"
    using assms by (subst skip_space.simps) simp
  then show ?thesis
    by (metis GetToken_skip_space)
qed

subsection \<open>End of input and single characters\<close>

lemma GetToken_eof: "GetToken (positioned [] s) = Returns token_eof (positioned [] s)"
  by (subst GetToken.simps) (simp add: skip_space_id isspace_def isalpha_def isdigit_def)

lemma GetToken_punct:
  "punct c \<Longrightarrow> GetToken (positioned (c # cs) s) = Returns (of_char c) (positioned cs s)"
  by (subst GetToken.simps) (simp add: skip_space_id punct_def Let_def)

subsection \<open>One-digit numbers\<close>

lemma scan_number_stop:
  "number_ends cs \<Longrightarrow> scan_number num_str (positioned cs s) = (num_str, positioned cs s)"
  by (subst scan_number.simps) (auto simp: number_ends_def isdigit_def split: list.splits)

lemma stod_digit: "isdigit (of_char d) \<Longrightarrow> stod [d] = Inr (of_nat (of_char d - 48))"
proof -
  assume d: "isdigit (of_char d)"
  then have "int (of_char d) \<le> 57"
    by (simp add: isdigit_def of_nat_of_char)
  then have "(of_char d :: nat) \<le> 57" by linarith
  then have "\<not> out_of_double_range (of_nat (of_char d - 48))"
    by (intro double_range_of_nat) simp
  with d show ?thesis
    by (simp add: stod_def is_digit_char_def digits_val_def)
qed

lemma GetToken_digit:
  "isdigit (of_char d) \<Longrightarrow> number_ends cs \<Longrightarrow>
   GetToken (positioned (d # cs) s)
     = Returns token_number (positioned cs (s\<lparr>NUM_VAL := of_nat (of_char d - 48)\<rparr>))"
  by (subst GetToken.simps)
    (simp add: skip_space_id isdigit_def [of "of_char d"] isspace_def isalpha_def Let_def
      scan_number_stop stod_digit)

subsection \<open>Identifiers\<close>

lemma scan_identifier_run:
  "list_all (\<lambda>c. isalnum (of_char c)) cs \<Longrightarrow> identifier_ends rest \<Longrightarrow>
   scan_identifier (positioned (c # cs @ rest) (s\<lparr>IDENTIFIER_STR := acc\<rparr>))
     = positioned rest (s\<lparr>IDENTIFIER_STR := acc @ cs\<rparr>)"
proof (induction cs arbitrary: c acc)
  case Nil
  then show ?case
    by (subst scan_identifier.simps)
      (auto simp: Let_def identifier_ends_def isalnum_def isalpha_def isdigit_def
        split: list.splits)
next
  case (Cons a cs)
  from Cons.prems have a: "isalnum (of_char a)" and cs: "list_all (\<lambda>c. isalnum (of_char c)) cs"
    by simp_all
  have "scan_identifier (positioned (c # (a # cs) @ rest) (s\<lparr>IDENTIFIER_STR := acc\<rparr>))
      = scan_identifier (positioned (a # cs @ rest) (s\<lparr>IDENTIFIER_STR := acc @ [a]\<rparr>))"
    using a by (subst scan_identifier.simps) (simp add: Let_def)
  also have "\<dots> = positioned rest (s\<lparr>IDENTIFIER_STR := (acc @ [a]) @ cs\<rparr>)"
    using cs Cons.prems(2) by (rule Cons.IH)
  finally show ?case by simp
qed

text \<open>A name: a letter, then letters and digits, and neither keyword.\<close>

definition is_name :: "string \<Rightarrow> bool" where
  "is_name w \<longleftrightarrow>
     (case w of
        [] \<Rightarrow> False
      | a # cs \<Rightarrow> isalpha (of_char a) \<and> list_all (\<lambda>c. isalnum (of_char c)) cs)
     \<and> w \<noteq> ''def'' \<and> w \<noteq> ''extern''"

lemma isalpha_not_space_digit:
  "isalpha c \<Longrightarrow> \<not> isspace c \<and> \<not> isdigit c \<and> c \<noteq> 46 \<and> c \<noteq> 35"
  by (auto simp: isalpha_def isspace_def isdigit_def)

lemma GetToken_name:
  assumes "is_name w" and "identifier_ends rest"
  shows "GetToken (positioned (w @ rest) s)
     = Returns token_identifier (positioned rest (s\<lparr>IDENTIFIER_STR := w\<rparr>))"
proof -
  from assms(1) obtain a cs where w: "w = a # cs" and a: "isalpha (of_char a)"
    and cs: "list_all (\<lambda>c. isalnum (of_char c)) cs"
    and kw: "a # cs \<noteq> ''def''" "a # cs \<noteq> ''extern''"
    by (auto simp: is_name_def split: list.splits)
  have "scan_identifier (positioned (a # cs @ rest) (s\<lparr>IDENTIFIER_STR := [a]\<rparr>))
      = positioned rest (s\<lparr>IDENTIFIER_STR := [a] @ cs\<rparr>)"
    using cs assms(2) by (rule scan_identifier_run)
  with a kw show ?thesis
    unfolding w
    by (subst GetToken.simps) (simp add: skip_space_id isalpha_not_space_digit Let_def)
qed

subsection \<open>What a call gave\<close>

definition returned :: "'a outcome \<Rightarrow> 'a option" where
  "returned m = (case m of Returns x s \<Rightarrow> Some x | Throws e \<Rightarrow> None | OutOfFuel \<Rightarrow> None)"

definition state_after :: "'a outcome \<Rightarrow> pstate option" where
  "state_after m = (case m of Returns x s \<Rightarrow> Some s | Throws e \<Rightarrow> None | OutOfFuel \<Rightarrow> None)"

lemma returned_simps [simp]:
  "returned (Returns x s) = Some x" "returned (Throws e) = None" "returned OutOfFuel = None"
  by (simp_all add: returned_def)

lemma state_after_simps [simp]:
  "state_after (Returns x s) = Some s" "state_after (Throws e) = None"
  "state_after OutOfFuel = None"
  by (simp_all add: state_after_def)

text \<open>
  Modelled from the spec: the token as a tagged value (the source has the \<open>int\<close> and
  the two payload variables), and the token sequence of a text, which is what
  repeated calls of \<open>GetToken\<close> give up to the end of input.
\<close>

datatype token = Eof | Def | Extern | Identifier string | Number rat | Character char

definition token_view :: "int \<Rightarrow> pstate \<Rightarrow> token" where
  "token_view t s =
     (if t = token_eof then Eof
      else if t = token_def then Def
      else if t = token_extern then Extern
      else if t = token_identifier then Identifier (IDENTIFIER_STR s)
      else if t = token_number then Number (NUM_VAL s)
      else Character (char_of t))"

function tokens_from :: "pstate \<Rightarrow> token list outcome" where
  "tokens_from s =
     (case GetToken s of
        Returns t s1 \<Rightarrow>
          if t = token_eof then Returns [] s1
          else (case tokens_from s1 of
                  Returns ts s2 \<Rightarrow> Returns (token_view t s1 # ts) s2
                | Throws e \<Rightarrow> Throws e
                | OutOfFuel \<Rightarrow> OutOfFuel)
      | Throws e \<Rightarrow> Throws e
      | OutOfFuel \<Rightarrow> OutOfFuel)"
  by pat_completeness auto
termination
  by (relation "measure pending") (auto dest: GetToken_pending)

declare tokens_from.simps [simp del]

definition tokenize :: "string \<Rightarrow> token list option" where
  "tokenize text = returned (tokens_from (initial Map.empty text))"

section \<open>The lexer on white space, numbers and comments\<close>

subsection \<open>White space\<close>

definition not_space_next :: "string \<Rightarrow> bool" where
  "not_space_next cs \<longleftrightarrow> (case cs of [] \<Rightarrow> True | c # _ \<Rightarrow> \<not> isspace (of_char c))"

lemma skip_space_run:
  "list_all (\<lambda>c. isspace (of_char c)) ws \<Longrightarrow> not_space_next cs \<Longrightarrow>
   skip_space (positioned (ws @ cs) s) = positioned cs s"
proof (induction ws)
  case Nil
  then show ?case
    by (cases cs) (simp_all add: skip_space_id not_space_next_def isspace_def)
next
  case (Cons w ws)
  then show ?case by (subst skip_space.simps) simp
qed

text \<open>
  Claim C4, as the code has it. The whitespace loop of \<open>GetToken\<close> tests \<open>isspace\<close>
  of \<open><cctype>\<close>, not the helper \<open>IsSpace\<close>: it skips space, tab, newline, vertical
  tab, form feed and carriage return, and stops before the first other character or
  at the end of input.
\<close>

theorem C4_whitespace_loop_skips_isspace:
  "(isspace c \<longleftrightarrow> c = 32 \<or> c = 9 \<or> c = 10 \<or> c = 11 \<or> c = 12 \<or> c = 13) \<and>
   (list_all (\<lambda>c. isspace (of_char c)) ws \<and> not_space_next cs \<longrightarrow>
      skip_space (positioned (ws @ cs) s) = positioned cs s)"
  by (auto simp: skip_space_run isspace_def)

theorem C4_whitespace_loop_skips_isspace_witness:
  "list_all (\<lambda>c. isspace (of_char c)) [CHR 0x0A, CHR 0x0D, CHR '' '', CHR 0x09]
   \<and> not_space_next ''2''
   \<and> skip_space (positioned ([CHR 0x0A, CHR 0x0D, CHR '' '', CHR 0x09] @ ''2'')
         (initial reference_table []))
       = positioned ''2'' (initial reference_table [])"
proof -
  have h: "list_all (\<lambda>c. isspace (of_char c)) [CHR 0x0A, CHR 0x0D, CHR '' '', CHR 0x09]
      \<and> not_space_next ''2''"
    by (simp add: isspace_def not_space_next_def)
  with C4_whitespace_loop_skips_isspace
    [of 10 "[CHR 0x0A, CHR 0x0D, CHR '' '', CHR 0x09]" "''2''" "initial reference_table []"]
  show ?thesis by blast
qed

text \<open>
  Claim C4 as it is stated fails: with a newline, or a carriage return, as the
  pending character the loop discards it and stops at the digit after it, the next
  token is the number, and \<open>IsSpace\<close>, which would have kept the two, is not what the
  loop tests.
\<close>

theorem C4_counterexample:
  "skip_space (positioned [CHR 0x0A, CHR ''2''] (initial reference_table []))
     = positioned ''2'' (initial reference_table [])
   \<and> skip_space (positioned [CHR 0x0D, CHR ''2''] (initial reference_table []))
     = positioned ''2'' (initial reference_table [])
   \<and> tokenize [CHR 0x0A, CHR ''2''] = Some [Number 2]
   \<and> \<not> IsSpace 10 \<and> \<not> IsSpace 13"
  by (simp add: tokenize_def tokens_from.simps token_view_def run_text positioned_def
      IsSpace_def)

subsection \<open>Numbers with more than one dot\<close>



lemma dot_not_digit [simp]: "\<not> is_digit_char CHR ''.''"
  by (simp add: is_digit_char_def isdigit_def)






subsection \<open>Comments\<close>

definition not_line_end :: "char \<Rightarrow> bool" where
  "not_line_end c \<longleftrightarrow> (of_char c :: int) \<noteq> 10 \<and> (of_char c :: int) \<noteq> 13"

lemma skip_comment_line:
  "list_all not_line_end cs \<Longrightarrow> \<not> not_line_end nl \<Longrightarrow>
   skip_comment (positioned (cs @ nl # rest) s) = positioned (nl # rest) s"
proof (induction cs)
  case Nil
  then show ?case by (subst skip_comment.simps) (auto simp: not_line_end_def)
next
  case (Cons c cs)
  then show ?case by (subst skip_comment.simps) (simp add: not_line_end_def)
qed

lemma skip_comment_eof:
  "list_all not_line_end cs \<Longrightarrow> skip_comment (positioned cs s) = positioned [] s"
proof (induction cs)
  case Nil
  then show ?case by (subst skip_comment.simps) simp
next
  case (Cons c cs)
  then show ?case by (subst skip_comment.simps) (simp add: not_line_end_def)
qed

lemma line_end_isspace: "\<not> not_line_end nl \<Longrightarrow> isspace (of_char nl)"
  by (auto simp: not_line_end_def isspace_def)

lemma GetToken_comment_line:
  assumes "list_all not_line_end cs" and "\<not> not_line_end nl"
  shows "GetToken (positioned (CHR ''#'' # cs @ nl # rest) s) = GetToken (positioned rest s)"
proof -
  have "GetToken (positioned (CHR ''#'' # cs @ nl # rest) s) = GetToken (positioned (nl # rest) s)"
    using assms
    by (subst GetToken.simps)
      (simp add: skip_space_id Let_def isspace_def isalpha_def isdigit_def skip_comment_line)
  also have "\<dots> = GetToken (positioned rest s)"
    using assms(2) by (intro GetToken_space line_end_isspace)
  finally show ?thesis .
qed

lemma GetToken_comment_eof:
  assumes "list_all not_line_end cs"
  shows "GetToken (positioned (CHR ''#'' # cs) s) = Returns token_eof (positioned [] s)"
  using assms
  by (subst GetToken.simps)
    (simp add: skip_space_id Let_def isspace_def isalpha_def isdigit_def skip_comment_eof)

text \<open>
  Claim C8. On \<open>#\<close> the tokenizer discards the characters up to and including the
  next newline or carriage return and gives the token that \<open>GetToken\<close> gives on the
  text after it; when the input ends before a line end it gives the end-of-input
  token. The text \<open>1 # comment\<close>, newline, \<open>2\<close> is the number 1, then the number 2.
\<close>

theorem C8_comments_are_transparent:
  "(list_all not_line_end cs \<and> \<not> not_line_end nl \<longrightarrow>
      GetToken (positioned (CHR ''#'' # cs @ nl # rest) s) = GetToken (positioned rest s))
   \<and> (list_all not_line_end cs \<longrightarrow>
      GetToken (positioned (CHR ''#'' # cs) s) = Returns token_eof (positioned [] s))
   \<and> tokenize (''1 # comment'' @ [CHR 0x0A] @ ''2'') = Some [Number 1, Number 2]"
proof (intro conjI impI)
  assume "list_all not_line_end cs \<and> \<not> not_line_end nl"
  then show "GetToken (positioned (CHR ''#'' # cs @ nl # rest) s) = GetToken (positioned rest s)"
    by (simp add: GetToken_comment_line)
next
  assume "list_all not_line_end cs"
  then show "GetToken (positioned (CHR ''#'' # cs) s) = Returns token_eof (positioned [] s)"
    by (rule GetToken_comment_eof)
next
  show "tokenize (''1 # comment'' @ [CHR 0x0A] @ ''2'') = Some [Number 1, Number 2]"
    by (simp add: tokenize_def tokens_from.simps token_view_def run_text)
qed

theorem C8_comments_are_transparent_witness:
  "list_all not_line_end '' comment'' \<and> \<not> not_line_end (CHR 0x0A)
   \<and> GetToken (positioned (CHR ''#'' # '' comment'' @ CHR 0x0A # ''2'') (initial reference_table []))
       = GetToken (positioned ''2'' (initial reference_table []))
   \<and> GetToken (positioned (CHR ''#'' # '' comment'') (initial reference_table []))
       = Returns token_eof (positioned [] (initial reference_table []))"
proof -
  have h: "list_all not_line_end '' comment''" "\<not> not_line_end (CHR 0x0A)"
    by (simp_all add: not_line_end_def)
  with C8_comments_are_transparent
    [of "'' comment''" "CHR 0x0A" "''2''" "initial reference_table []"]
  show ?thesis by blast
qed

section \<open>Tokens that are not binary operators\<close>

text \<open>
  The precedence a token is registered with: a positive entry of the table under an
  ASCII character.
\<close>

definition registered_precedence :: "(char \<rightharpoonup> int) \<Rightarrow> int \<Rightarrow> int option" where
  "registered_precedence table t =
     (if isascii t then
        (case table (char_of t) of
           None \<Rightarrow> None
         | Some p \<Rightarrow> if 0 < p then Some p else None)
      else None)"

lemma GetTokenPrecedence_fst:
  "fst (GetTokenPrecedence s) =
     (case registered_precedence (BinopPrecedence s) (cur_token s) of None \<Rightarrow> - 1 | Some p \<Rightarrow> p)"
  by (simp add: GetTokenPrecedence_def registered_precedence_def Let_def split: option.splits)

lemma GetTokenPrecedence_snd_fields [simp]:
  "cur_token (snd (GetTokenPrecedence s)) = cur_token s"
  "input (snd (GetTokenPrecedence s)) = input s"
  "last_char (snd (GetTokenPrecedence s)) = last_char s"
  "IDENTIFIER_STR (snd (GetTokenPrecedence s)) = IDENTIFIER_STR s"
  "NUM_VAL (snd (GetTokenPrecedence s)) = NUM_VAL s"
  "err (snd (GetTokenPrecedence s)) = err s"
  by (simp_all add: GetTokenPrecedence_def Let_def split: option.splits)

lemma registered_precedence_negative: "t < 0 \<Longrightarrow> registered_precedence table t = None"
  by (simp add: registered_precedence_def isascii_def)

text \<open>
  Claim C10. For every token that is not an ASCII character with a registered positive
  precedence, and so for every negative token code (end of input, \<open>def\<close>, \<open>extern\<close>,
  identifier, number), \<open>GetTokenPrecedence\<close> returns \<open>-1\<close>. With such a token as the
  lookahead, \<open>ParseBinOpRHS\<close> called with a minimum precedence that is not negative
  returns its left-hand side unchanged at once: the token stays the lookahead, the
  lexer has read nothing, nothing is printed.
\<close>

theorem C10_non_operator_lookahead:
  assumes "cur_token s < 0 \<or> registered_precedence (BinopPrecedence s) (cur_token s) = None"
  shows "fst (GetTokenPrecedence s) = - 1 \<and>
    (0 \<le> expr_prec \<longrightarrow>
       (\<exists>s'. ParseBinOpRHS (Suc n) expr_prec LHS s = Returns (Some LHS) s'
          \<and> cur_token s' = cur_token s \<and> last_char s' = last_char s
          \<and> input s' = input s \<and> err s' = err s))"
proof (intro conjI impI)
  from assms have "registered_precedence (BinopPrecedence s) (cur_token s) = None"
    by (auto simp: registered_precedence_negative)
  then show p: "fst (GetTokenPrecedence s) = - 1"
    by (simp add: GetTokenPrecedence_fst)
  assume e: "0 \<le> expr_prec"
  obtain tp s0 where g: "GetTokenPrecedence s = (tp, s0)"
    by (cases "GetTokenPrecedence s")
  with p have tp: "tp = - 1" by simp
  have "ParseBinOpRHS (Suc n) expr_prec LHS s = Returns (Some LHS) s0"
    using e by (simp add: g tp)
  moreover have "cur_token s0 = cur_token s" "last_char s0 = last_char s"
    "input s0 = input s" "err s0 = err s"
    using GetTokenPrecedence_snd_fields [of s] by (simp_all add: g)
  ultimately show "\<exists>s'. ParseBinOpRHS (Suc n) expr_prec LHS s = Returns (Some LHS) s'
      \<and> cur_token s' = cur_token s \<and> last_char s' = last_char s
      \<and> input s' = input s \<and> err s' = err s"
    by blast
qed

theorem C10_non_operator_lookahead_witness:
  "cur_token ((initial reference_table ''x'')\<lparr>cur_token := token_def\<rparr>) < 0
   \<and> fst (GetTokenPrecedence ((initial reference_table ''x'')\<lparr>cur_token := token_def\<rparr>)) = - 1
   \<and> (\<exists>s'. ParseBinOpRHS (Suc 0) 0 (NumberExprAST 1)
               ((initial reference_table ''x'')\<lparr>cur_token := token_def\<rparr>)
           = Returns (Some (NumberExprAST 1)) s' \<and> cur_token s' = token_def \<and> input s' = ''x'')"
proof -
  let ?s = "(initial reference_table ''x'')\<lparr>cur_token := token_def\<rparr>"
  have h: "cur_token ?s < 0" by simp
  then have "cur_token ?s < 0 \<or> registered_precedence (BinopPrecedence ?s) (cur_token ?s) = None"
    by (rule disjI1)
  from C10_non_operator_lookahead [OF this, of 0 0 "NumberExprAST 1"]
  obtain s' where "fst (GetTokenPrecedence ?s) = - 1"
    and "ParseBinOpRHS (Suc 0) 0 (NumberExprAST 1) ?s = Returns (Some (NumberExprAST 1)) s'"
    and "cur_token s' = cur_token ?s" and "input s' = input ?s"
    by auto
  moreover have "cur_token ?s = token_def" "input ?s = ''x''" by (simp_all add: initial_def)
  ultimately show ?thesis using h by metis
qed

section \<open>Chains of one-digit operands and binary operators\<close>

text \<open>
  \<open>chain_text\<close> is the text of a list of operator and digit pairs, \<open>left_nested\<close> the
  tree that takes them one after the other as the right operand of a new root, and
  \<open>stands_at\<close> says that the first operator of the chain is the lookahead (end of
  input for the empty chain) and the lexer stands right after it.
\<close>

lemma positioned_same:
  "last_char s = of_char c \<Longrightarrow> input s = cs \<Longrightarrow> positioned (c # cs) s = s"
  by (simp add: positioned_def)

lemma positioned_same_Nil:
  "last_char s = EOF \<Longrightarrow> input s = [] \<Longrightarrow> positioned [] s = s"
  by (simp add: positioned_def)

lemma GetTokenPrecedence_registered:
  "registered_precedence (BinopPrecedence s) (cur_token s) = Some p \<Longrightarrow>
   GetTokenPrecedence s = (p, s)"
  by (auto simp: GetTokenPrecedence_def registered_precedence_def Let_def
      split: if_splits option.splits)

lemma GetTokenPrecedence_not_ascii:
  "\<not> isascii (cur_token s) \<Longrightarrow> GetTokenPrecedence s = (- 1, s)"
  by (simp add: GetTokenPrecedence_def)

text \<open>
  A binary operator of a table: a character that is a token by itself and is
  registered with a positive precedence.
\<close>

definition binop_of :: "(char \<rightharpoonup> int) \<Rightarrow> char \<Rightarrow> int \<Rightarrow> bool" where
  "binop_of table c p \<longleftrightarrow> punct c \<and> registered_precedence table (of_char c) = Some p"

definition digit_value :: "char \<Rightarrow> rat" where
  "digit_value d = of_nat (of_char d - 48)"

definition chain_text :: "(char \<times> char) list \<Rightarrow> string" where
  "chain_text ps = concat (map (\<lambda>(op, d). [op, d]) ps)"

definition left_nested :: "ExprAST \<Rightarrow> (char \<times> char) list \<Rightarrow> ExprAST" where
  "left_nested lhs ps = foldl (\<lambda>l (op, d). BinaryExprAST op l (NumberExprAST (digit_value d))) lhs ps"

definition stands_at :: "(char \<times> char) list \<Rightarrow> pstate \<Rightarrow> bool" where
  "stands_at ps s \<longleftrightarrow>
     (case ps of
        [] \<Rightarrow> cur_token s = token_eof \<and> last_char s = EOF \<and> input s = []
      | (op, d) # ps' \<Rightarrow>
          cur_token s = of_char op \<and> last_char s = of_char d \<and> input s = chain_text ps')"

lemma chain_text_simps [simp]:
  "chain_text [] = []" "chain_text ((op, d) # ps) = op # d # chain_text ps"
  by (simp_all add: chain_text_def)

lemma left_nested_simps [simp]:
  "left_nested lhs [] = lhs"
  "left_nested lhs ((op, d) # ps) = left_nested (BinaryExprAST op lhs (NumberExprAST (digit_value d))) ps"
  by (simp_all add: left_nested_def)

lemma ParsePrimary_digit_chain:
  assumes ps: "list_all (\<lambda>(op, d). punct op \<and> isdigit (of_char d)) ps"
    and s: "cur_token s = token_number" "last_char s = (case ps of [] \<Rightarrow> EOF | (op, d) # _ \<Rightarrow> of_char op)"
      "input s = tl (chain_text ps)"
  shows "\<exists>s'. ParsePrimary (Suc n) s = Returns (Some (NumberExprAST (NUM_VAL s))) s'
           \<and> stands_at ps s' \<and> err s' = err s \<and> BinopPrecedence s' = BinopPrecedence s"
proof (cases ps)
  case Nil
  with s have "positioned [] s = s" by (simp add: positioned_same_Nil)
  then have "GetToken s = Returns token_eof s"
    using GetToken_eof [of s] by simp
  with s Nil show ?thesis
    by (simp add: ParseNumberExpr_def GetNextToken_def stands_at_def)
next
  case (Cons a ps')
  obtain op d where a: "a = (op, d)" by (cases a)
  from ps Cons a have op: "punct op" and d: "isdigit (of_char d)" by simp_all
  from s Cons a have "positioned (op # d # chain_text ps') s = s"
    by (simp add: positioned_same)
  then have "GetToken s = Returns (of_char op) (positioned (d # chain_text ps') s)"
    using GetToken_punct [OF op, of "d # chain_text ps'" s] by simp
  with s Cons a show ?thesis
    by (simp add: ParseNumberExpr_def GetNextToken_def stands_at_def)
qed


lemma punct_number_ends: "punct c \<Longrightarrow> number_ends (c # cs)"
  by (simp add: punct_def number_ends_def)

lemma binop_of_precedence:
  "binop_of (BinopPrecedence s) op p \<Longrightarrow> cur_token s = of_char op \<Longrightarrow>
   GetTokenPrecedence s = (p, s)"
  by (simp add: binop_of_def GetTokenPrecedence_registered)

lemma ParseBinOpRHS_chain:
  assumes "list_all (\<lambda>(op, d). binop_of table op p \<and> isdigit (of_char d)) ps"
    and "stands_at ps s" and "BinopPrecedence s = table" and "0 \<le> e" and "e \<le> p"
  shows "\<exists>s'. ParseBinOpRHS (Suc (length ps) + k) e lhs s = Returns (Some (left_nested lhs ps)) s'
           \<and> cur_token s' = token_eof \<and> err s' = err s"
  using assms
proof (induction ps arbitrary: lhs s)
  case Nil
  then have "GetTokenPrecedence s = (- 1, s)"
    by (intro GetTokenPrecedence_not_ascii) (simp add: stands_at_def isascii_def)
  with Nil show ?case by (simp add: stands_at_def)
next
  case (Cons a ps)
  obtain op d where a: "a = (op, d)" by (cases a)
  from Cons.prems(1) a have op: "binop_of table op p" and d: "isdigit (of_char d)"
    and ps: "list_all (\<lambda>(op, d). binop_of table op p \<and> isdigit (of_char d)) ps"
    by simp_all
  from ps have ps': "list_all (\<lambda>(op, d). punct op \<and> isdigit (of_char d)) ps"
    by (induction ps) (auto simp: binop_of_def)
  from Cons.prems(2) a have s: "cur_token s = of_char op" "last_char s = of_char d"
    "input s = chain_text ps"
    by (simp_all add: stands_at_def)
  have prec: "GetTokenPrecedence s = (p, s)"
    using op s(1) Cons.prems(3) by (intro binop_of_precedence) simp_all
  have ends: "number_ends (chain_text ps)"
  proof (cases ps)
    case Nil
    then show ?thesis by (simp add: number_ends_def)
  next
    case (Cons b ps'')
    with ps' show ?thesis by (cases b) (simp add: punct_number_ends)
  qed
  define s1 where "s1 = positioned (chain_text ps)
    (s\<lparr>NUM_VAL := of_nat (of_char d - 48), cur_token := token_number\<rparr>)"
  have "positioned (d # chain_text ps) s = s"
    using s by (simp add: positioned_same)
  then have next1: "GetNextToken s = Returns token_number s1"
    using GetToken_digit [OF d ends, of s] by (simp add: GetNextToken_def s1_def)
  have s1: "cur_token s1 = token_number"
    "last_char s1 = (case ps of [] \<Rightarrow> EOF | (op, d) # _ \<Rightarrow> of_char op)"
    "input s1 = tl (chain_text ps)" "NUM_VAL s1 = digit_value d" "err s1 = err s"
    "BinopPrecedence s1 = table"
    using Cons.prems(3)
    by (auto simp: s1_def digit_value_def positioned_def split: list.splits)
  from ParsePrimary_digit_chain [OF ps' s1(1-3), of "length ps + k"]
  obtain s2 where prim: "ParsePrimary (Suc (length ps + k)) s1
      = Returns (Some (NumberExprAST (digit_value d))) s2"
    and s2: "stands_at ps s2" "err s2 = err s" "BinopPrecedence s2 = table"
    by (auto simp: s1)
  have "\<exists>q. GetTokenPrecedence s2 = (q, s2) \<and> q \<le> p"
  proof (cases ps)
    case Nil
    with s2(1) have "GetTokenPrecedence s2 = (- 1, s2)"
      by (intro GetTokenPrecedence_not_ascii) (simp add: stands_at_def isascii_def)
    moreover have "0 < p" using op by (auto simp: binop_of_def registered_precedence_def split: if_splits option.splits)
    ultimately show ?thesis by simp
  next
    case (Cons b ps'')
    obtain op' d' where b: "b = (op', d')" by (cases b)
    with ps Cons have "binop_of table op' p" by simp
    moreover from s2(1) Cons b have "cur_token s2 = of_char op'" by (simp add: stands_at_def)
    ultimately have "GetTokenPrecedence s2 = (p, s2)"
      using s2(3) by (intro binop_of_precedence) simp_all
    then show ?thesis by simp
  qed
  then obtain q where next_prec: "GetTokenPrecedence s2 = (q, s2)" and q: "q \<le> p" by blast
  from Cons.IH [OF ps s2(1) s2(3) Cons.prems(4) Cons.prems(5),
      of "BinaryExprAST op lhs (NumberExprAST (digit_value d))"]
  obtain s' where "ParseBinOpRHS (Suc (length ps) + k) e
      (BinaryExprAST op lhs (NumberExprAST (digit_value d))) s2
        = Returns (Some (left_nested (BinaryExprAST op lhs (NumberExprAST (digit_value d))) ps)) s'"
    and "cur_token s' = token_eof" and "err s' = err s2"
    by blast
  then show ?case
    using prec next1 prim next_prec q Cons.prems(5) s(1) s2(2)
    by (simp add: a)
qed

lemma parse_expression_chain:
  assumes "isdigit (of_char d0)"
    and "list_all (\<lambda>(op, d). binop_of table op p \<and> isdigit (of_char d)) ps"
  shows "\<exists>s'. parse_expression table (d0 # chain_text ps) (length ps + 2 + k)
           = Returns (Some (left_nested (NumberExprAST (digit_value d0)) ps)) s'
           \<and> cur_token s' = token_eof \<and> err s' = []"
proof -
  from assms(2) have ps': "list_all (\<lambda>(op, d). punct op \<and> isdigit (of_char d)) ps"
    by (induction ps) (auto simp: binop_of_def)
  have ends: "number_ends (chain_text ps)"
  proof (cases ps)
    case Nil
    then show ?thesis by (simp add: number_ends_def)
  next
    case (Cons b ps'')
    with ps' show ?thesis by (cases b) (simp add: punct_number_ends)
  qed
  define s1 where "s1 = positioned (chain_text ps)
    ((initial table [])\<lparr>NUM_VAL := of_nat (of_char d0 - 48), cur_token := token_number\<rparr>)"
  have "GetToken (initial table (d0 # chain_text ps))
      = GetToken (positioned (d0 # chain_text ps) (initial table []))"
    unfolding initial_positioned [of table "d0 # chain_text ps"]
    by (rule GetToken_space) (simp add: isspace_def)
  then have start: "start table (d0 # chain_text ps) = Returns token_number s1"
    using GetToken_digit [OF assms(1) ends, of "initial table []"]
    by (simp add: start_def GetNextToken_def s1_def)
  have s1: "cur_token s1 = token_number"
    "last_char s1 = (case ps of [] \<Rightarrow> EOF | (op, d) # _ \<Rightarrow> of_char op)"
    "input s1 = tl (chain_text ps)" "NUM_VAL s1 = digit_value d0" "err s1 = []"
    "BinopPrecedence s1 = table"
    by (auto simp: s1_def digit_value_def positioned_def initial_def split: list.splits)
  from ParsePrimary_digit_chain [OF ps' s1(1-3), of "length ps + k"]
  obtain s2 where prim: "ParsePrimary (Suc (length ps + k)) s1
      = Returns (Some (NumberExprAST (digit_value d0))) s2"
    and s2: "stands_at ps s2" "err s2 = []" "BinopPrecedence s2 = table"
    by (auto simp: s1)
  have "\<exists>p'. 0 \<le> p' \<and> list_all (\<lambda>(op, d). binop_of table op p' \<and> isdigit (of_char d)) ps"
  proof (cases ps)
    case Nil
    then show ?thesis by auto
  next
    case (Cons b ps'')
    with assms(2) have "0 < p"
      by (cases b)
        (auto simp: binop_of_def registered_precedence_def split: if_splits option.splits)
    with assms(2) show ?thesis by (intro exI [of _ p]) simp
  qed
  then obtain p' where p': "0 \<le> p'"
    "list_all (\<lambda>(op, d). binop_of table op p' \<and> isdigit (of_char d)) ps"
    by blast
  from ParseBinOpRHS_chain [OF p'(2) s2(1) s2(3) order_refl p'(1), of k "NumberExprAST (digit_value d0)"]
  obtain s' where rhs: "ParseBinOpRHS (Suc (length ps) + k) 0 (NumberExprAST (digit_value d0)) s2
      = Returns (Some (left_nested (NumberExprAST (digit_value d0)) ps)) s'"
    and s': "cur_token s' = token_eof" "err s' = err s2"
    by blast
  have "ParseExpression (Suc (Suc (length ps + k))) s1
      = ParseBinOpRHS (Suc (length ps + k)) 0 (NumberExprAST (digit_value d0)) s2"
    by (subst ParseExpression.simps) (simp only: prim bind_Returns option.case)
  with rhs have "ParseExpression (length ps + 2 + k) s1
      = Returns (Some (left_nested (NumberExprAST (digit_value d0)) ps)) s'"
    by (simp del: ParseBinOpRHS.simps ParseExpression.simps)
  with start s' s2(2) show ?thesis
    by (simp add: parse_expression_def del: ParseExpression.simps)
qed


lemma left_nested_snoc:
  "left_nested lhs (ps @ [(op, d)])
     = BinaryExprAST op (left_nested lhs ps) (NumberExprAST (digit_value d))"
  by (simp add: left_nested_def)

text \<open>
  Claim C2. Operators of equal precedence group to the left: \<open>1-2-3\<close> is parsed as
  \<open>(1-2)-3\<close>, and for every table, every chain of one-digit operands and operators
  that the table gives one and the same positive precedence is parsed, with enough
  fuel, into the tree that nests to the left, with all input used and nothing
  printed.
\<close>

theorem C2_equal_precedence_nests_left:
  "(\<exists>s'. parse_expression reference_table ''1-2-3'' (4 + k)
           = Returns (Some (BinaryExprAST CHR ''-''
               (BinaryExprAST CHR ''-'' (NumberExprAST 1) (NumberExprAST 2))
               (NumberExprAST 3))) s'
         \<and> cur_token s' = token_eof \<and> err s' = [])
   \<and> (isdigit (of_char d0)
        \<and> list_all (\<lambda>(op, d). binop_of table op p \<and> isdigit (of_char d)) ps \<longrightarrow>
      (\<exists>s'. parse_expression table (d0 # chain_text ps) (length ps + 2 + k)
           = Returns (Some (left_nested (NumberExprAST (digit_value d0)) ps)) s'
         \<and> cur_token s' = token_eof \<and> err s' = []))"
proof (intro conjI impI)
  show "\<exists>s'. parse_expression reference_table ''1-2-3'' (4 + k)
           = Returns (Some (BinaryExprAST CHR ''-''
               (BinaryExprAST CHR ''-'' (NumberExprAST 1) (NumberExprAST 2))
               (NumberExprAST 3))) s'
         \<and> cur_token s' = token_eof \<and> err s' = []"
    by (simp add: run_text)
next
  assume "isdigit (of_char d0)
    \<and> list_all (\<lambda>(op, d). binop_of table op p \<and> isdigit (of_char d)) ps"
  then show "\<exists>s'. parse_expression table (d0 # chain_text ps) (length ps + 2 + k)
           = Returns (Some (left_nested (NumberExprAST (digit_value d0)) ps)) s'
         \<and> cur_token s' = token_eof \<and> err s' = []"
    using parse_expression_chain [of d0 table p ps k] by blast
qed

theorem C2_equal_precedence_nests_left_witness:
  "isdigit (of_char CHR ''7'')
   \<and> list_all (\<lambda>(op, d). binop_of reference_table op 20 \<and> isdigit (of_char d))
        [(CHR ''-'', CHR ''2''), (CHR ''+'', CHR ''5''), (CHR ''-'', CHR ''3'')]
   \<and> (\<exists>s'. parse_expression reference_table ''7-2+5-3'' (Suc (Suc (Suc (Suc (Suc 0)))))
           = Returns (Some (BinaryExprAST CHR ''-''
               (BinaryExprAST CHR ''+''
                 (BinaryExprAST CHR ''-'' (NumberExprAST 7) (NumberExprAST 2))
                 (NumberExprAST 5))
               (NumberExprAST 3))) s'
         \<and> cur_token s' = token_eof \<and> err s' = [])"
proof -
  have h: "isdigit (of_char CHR ''7'')
    \<and> list_all (\<lambda>(op, d). binop_of reference_table op 20 \<and> isdigit (of_char d))
        [(CHR ''-'', CHR ''2''), (CHR ''+'', CHR ''5''), (CHR ''-'', CHR ''3'')]"
    by (simp add: isdigit_def binop_of_def punct_def registered_precedence_def
        reference_table_def isascii_def isspace_def isalpha_def char_of_eq_char_iff)
  with C2_equal_precedence_nests_left
    [of 0 "CHR ''7''" reference_table 20
      "[(CHR ''-'', CHR ''2''), (CHR ''+'', CHR ''5''), (CHR ''-'', CHR ''3'')]"]
  have "\<exists>s'. parse_expression reference_table
        (CHR ''7'' # chain_text [(CHR ''-'', CHR ''2''), (CHR ''+'', CHR ''5''), (CHR ''-'', CHR ''3'')])
        (length [(CHR ''-'', CHR ''2''), (CHR ''+'', CHR ''5''), (CHR ''-'', CHR ''3'')] + 2 + 0)
      = Returns (Some (left_nested (NumberExprAST (digit_value CHR ''7''))
          [(CHR ''-'', CHR ''2''), (CHR ''+'', CHR ''5''), (CHR ''-'', CHR ''3'')])) s'
      \<and> cur_token s' = token_eof \<and> err s' = []"
    by blast
  then have "\<exists>s'. parse_expression reference_table ''7-2+5-3'' (Suc (Suc (Suc (Suc (Suc 0)))))
           = Returns (Some (BinaryExprAST CHR ''-''
               (BinaryExprAST CHR ''+''
                 (BinaryExprAST CHR ''-'' (NumberExprAST 7) (NumberExprAST 2))
                 (NumberExprAST 5))
               (NumberExprAST 3))) s'
         \<and> cur_token s' = token_eof \<and> err s' = []"
    by (simp add: digit_value_def)
  with h show ?thesis by blast
qed

section \<open>A following operator of higher precedence\<close>

lemma binop_of_positive: "binop_of table op p \<Longrightarrow> 0 < p"
  by (auto simp: binop_of_def registered_precedence_def split: if_splits option.splits)

lemma binop_chain_punct:
  "list_all (\<lambda>(op, d). binop_of table op p \<and> isdigit (of_char d)) ps \<Longrightarrow>
   list_all (\<lambda>(op, d). punct op \<and> isdigit (of_char d)) ps"
  by (induction ps) (auto simp: binop_of_def)

lemma chain_text_number_ends:
  "list_all (\<lambda>(op, d). punct op \<and> isdigit (of_char d)) ps \<Longrightarrow> number_ends (chain_text ps)"
proof (cases ps)
  case Nil
  then show ?thesis by (simp add: number_ends_def)
next
  case (Cons b ps')
  assume "list_all (\<lambda>(op, d). punct op \<and> isdigit (of_char d)) ps"
  with Cons show ?thesis by (cases b) (simp add: punct_number_ends)
qed

lemma ParseBinOpRHS_at_eof:
  "cur_token s = token_eof \<Longrightarrow> 0 \<le> e \<Longrightarrow> ParseBinOpRHS (Suc n) e lhs s = Returns (Some lhs) s"
  by (simp add: GetTokenPrecedence_not_ascii isascii_def)

lemma ParseBinOpRHS_higher_next:
  assumes "registered_precedence (BinopPrecedence s) (cur_token s) = Some p1" and "e \<le> p1"
    and "GetNextToken s = Returns t s1" and "ParsePrimary n s1 = Returns (Some rhs) s2"
    and "registered_precedence (BinopPrecedence s2) (cur_token s2) = Some p2" and "p1 < p2"
  shows "ParseBinOpRHS (Suc n) e lhs s =
    bind (ParseBinOpRHS n (p1 + 1) rhs s2) (\<lambda>r s3.
      case r of
        None \<Rightarrow> Returns None s3
      | Some rhs' \<Rightarrow> ParseBinOpRHS n e (BinaryExprAST (char_of (cur_token s)) lhs rhs') s3)"
  using assms by (simp add: GetTokenPrecedence_registered)

lemma parse_expression_higher_chain:
  assumes a: "isdigit (of_char a)" and o1: "binop_of table o1 p1" and b: "isdigit (of_char b)"
    and ps: "list_all (\<lambda>(op, d). binop_of table op p2 \<and> isdigit (of_char d)) ps"
    and less: "p1 < p2"
  shows "\<exists>s'. parse_expression table (a # o1 # b # chain_text ps) (length ps + 3 + k)
           = Returns (Some (BinaryExprAST o1 (NumberExprAST (digit_value a))
                (left_nested (NumberExprAST (digit_value b)) ps))) s'
           \<and> cur_token s' = token_eof \<and> err s' = []"
proof -
  let ?all = "(o1, b) # ps"
  have all: "list_all (\<lambda>(op, d). punct op \<and> isdigit (of_char d)) ?all"
    using o1 b binop_chain_punct [OF ps] by (simp add: binop_of_def)
  have ps': "list_all (\<lambda>(op, d). punct op \<and> isdigit (of_char d)) ps"
    using all by simp
  have p1: "0 < p1" using o1 by (rule binop_of_positive)
  \<comment> \<open>the first token\<close>
  define s1 where "s1 = positioned (chain_text ?all)
    ((initial table [])\<lparr>NUM_VAL := of_nat (of_char a - 48), cur_token := token_number\<rparr>)"
  have "GetToken (initial table (a # chain_text ?all))
      = GetToken (positioned (a # chain_text ?all) (initial table []))"
    unfolding initial_positioned [of table "a # chain_text ?all"]
    by (rule GetToken_space) (simp add: isspace_def)
  then have start: "start table (a # chain_text ?all) = Returns token_number s1"
    using GetToken_digit [OF a chain_text_number_ends [OF all], of "initial table []"]
    by (simp add: start_def GetNextToken_def s1_def)
  have s1: "cur_token s1 = token_number"
    "last_char s1 = (case ?all of [] \<Rightarrow> EOF | (op, d) # _ \<Rightarrow> of_char op)"
    "input s1 = tl (chain_text ?all)" "NUM_VAL s1 = digit_value a" "err s1 = []"
    "BinopPrecedence s1 = table"
    by (auto simp: s1_def digit_value_def positioned_def initial_def)
  \<comment> \<open>the first operand\<close>
  from ParsePrimary_digit_chain [OF all s1(1-3), of "Suc (length ps + k)"]
  obtain s2 where prim: "ParsePrimary (Suc (Suc (length ps + k))) s1
      = Returns (Some (NumberExprAST (digit_value a))) s2"
    and s2: "stands_at ?all s2" "err s2 = []" "BinopPrecedence s2 = table"
    by (auto simp: s1)
  from s2(1) have s2': "cur_token s2 = of_char o1" "last_char s2 = of_char b"
    "input s2 = chain_text ps"
    by (simp_all add: stands_at_def)
  have prec1: "registered_precedence (BinopPrecedence s2) (cur_token s2) = Some p1"
    using o1 s2(3) s2'(1) by (simp add: binop_of_def)
  \<comment> \<open>the operand after the first operator\<close>
  define s3 where "s3 = positioned (chain_text ps)
    (s2\<lparr>NUM_VAL := of_nat (of_char b - 48), cur_token := token_number\<rparr>)"
  have "positioned (b # chain_text ps) s2 = s2"
    using s2' by (simp add: positioned_same)
  then have next3: "GetNextToken s2 = Returns token_number s3"
    using GetToken_digit [OF b chain_text_number_ends [OF ps'], of s2]
    by (simp add: GetNextToken_def s3_def)
  have s3: "cur_token s3 = token_number"
    "last_char s3 = (case ps of [] \<Rightarrow> EOF | (op, d) # _ \<Rightarrow> of_char op)"
    "input s3 = tl (chain_text ps)" "NUM_VAL s3 = digit_value b" "err s3 = []"
    "BinopPrecedence s3 = table"
    using s2(2,3)
    by (auto simp: s3_def digit_value_def positioned_def split: list.splits)
  from ParsePrimary_digit_chain [OF ps' s3(1-3), of "length ps + k"]
  obtain s4 where prim4: "ParsePrimary (Suc (length ps + k)) s3
      = Returns (Some (NumberExprAST (digit_value b))) s4"
    and s4: "stands_at ps s4" "err s4 = []" "BinopPrecedence s4 = table"
    by (auto simp: s3)
  let ?tree = "BinaryExprAST o1 (NumberExprAST (digit_value a))
      (left_nested (NumberExprAST (digit_value b)) ps)"
  have "\<exists>s'. ParseBinOpRHS (Suc (Suc (length ps + k))) 0 (NumberExprAST (digit_value a)) s2
      = Returns (Some ?tree) s' \<and> cur_token s' = token_eof \<and> err s' = []"
  proof (cases ps)
    case Nil
    with s4(1) have eof: "cur_token s4 = token_eof" by (simp add: stands_at_def)
    then have "GetTokenPrecedence s4 = (- 1, s4)"
      by (intro GetTokenPrecedence_not_ascii) (simp add: isascii_def)
    moreover have "ParseBinOpRHS (Suc (length ps + k)) 0
        (BinaryExprAST o1 (NumberExprAST (digit_value a)) (NumberExprAST (digit_value b))) s4
      = Returns (Some (BinaryExprAST o1 (NumberExprAST (digit_value a))
          (NumberExprAST (digit_value b)))) s4"
      using eof by (intro ParseBinOpRHS_at_eof) simp_all
    ultimately have "ParseBinOpRHS (Suc (Suc (length ps + k))) 0 (NumberExprAST (digit_value a)) s2
      = Returns (Some (BinaryExprAST o1 (NumberExprAST (digit_value a))
          (NumberExprAST (digit_value b)))) s4"
      using p1 next3 prim4 s2'(1)
      by (subst ParseBinOpRHS.simps)
        (simp add: GetTokenPrecedence_registered [OF prec1] del: ParseBinOpRHS.simps ParsePrimary.simps)
    with Nil eof s4(2) show ?thesis by simp
  next
    case (Cons c ps')
    obtain o2 d where c: "c = (o2, d)" by (cases c)
    with ps Cons have "binop_of table o2 p2" by simp
    moreover from s4(1) Cons c have "cur_token s4 = of_char o2" by (simp add: stands_at_def)
    ultimately have prec2: "registered_precedence (BinopPrecedence s4) (cur_token s4) = Some p2"
      using s4(3) by (simp add: binop_of_def)
    from ParseBinOpRHS_chain [OF ps s4(1) s4(3), of "p1 + 1" k "NumberExprAST (digit_value b)"]
    obtain s5 where inner: "ParseBinOpRHS (Suc (length ps) + k) (p1 + 1)
        (NumberExprAST (digit_value b)) s4
        = Returns (Some (left_nested (NumberExprAST (digit_value b)) ps)) s5"
      and s5: "cur_token s5 = token_eof" "err s5 = err s4"
      using p1 less by auto
    have last: "ParseBinOpRHS (Suc (length ps + k)) 0 ?tree s5 = Returns (Some ?tree) s5"
      using s5(1) by (intro ParseBinOpRHS_at_eof) simp_all
    have "ParseBinOpRHS (Suc (Suc (length ps + k))) 0 (NumberExprAST (digit_value a)) s2
        = Returns (Some ?tree) s5"
      using ParseBinOpRHS_higher_next [OF prec1 _ next3 prim4 prec2 less, of 0
          "NumberExprAST (digit_value a)"] p1 inner last s2'(1)
      by (simp del: ParseBinOpRHS.simps ParsePrimary.simps)
    with s5 s4(2) show ?thesis by simp
  qed
  then obtain s' where rhs: "ParseBinOpRHS (Suc (Suc (length ps + k))) 0
      (NumberExprAST (digit_value a)) s2 = Returns (Some ?tree) s'"
    and s': "cur_token s' = token_eof" "err s' = []"
    by blast
  have "ParseExpression (Suc (Suc (Suc (length ps + k)))) s1
      = ParseBinOpRHS (Suc (Suc (length ps + k))) 0 (NumberExprAST (digit_value a)) s2"
    by (subst ParseExpression.simps) (simp only: prim bind_Returns option.case)
  with rhs have "ParseExpression (length ps + 3 + k) s1 = Returns (Some ?tree) s'"
    by (simp del: ParseBinOpRHS.simps ParseExpression.simps add: eval_nat_numeral)
  with start s' show ?thesis
    by (simp add: parse_expression_def del: ParseExpression.simps)
qed


text \<open>
  Claim C1. Under the reference table \<open>1+2*3\<close> is parsed as \<open>1+(2*3)\<close>. In general:
  when the operator that is the lookahead of \<open>ParseBinOpRHS\<close> is followed by an
  operand and then by an operator of strictly higher precedence, that operand is
  first handed to \<open>ParseBinOpRHS\<close> with the minimum precedence raised by one, and only
  what this call returns becomes the right child of the node of the first operator.
  So, for every table, a one-digit operand, an operator, and then a chain of one-digit
  operands under operators of one strictly higher precedence is parsed into the
  first operator over the first operand and the tree of the whole chain.
\<close>

theorem C1_higher_precedence_binds_first:
  "(\<exists>s'. parse_expression reference_table ''1+2*3'' (4 + k)
           = Returns (Some (BinaryExprAST CHR ''+'' (NumberExprAST 1)
               (BinaryExprAST CHR ''*'' (NumberExprAST 2) (NumberExprAST 3)))) s'
         \<and> cur_token s' = token_eof \<and> err s' = [])
   \<and> (registered_precedence (BinopPrecedence s) (cur_token s) = Some p1 \<and> e \<le> p1
        \<and> GetNextToken s = Returns t s1 \<and> ParsePrimary n s1 = Returns (Some rhs) s2
        \<and> registered_precedence (BinopPrecedence s2) (cur_token s2) = Some p2 \<and> p1 < p2 \<longrightarrow>
      ParseBinOpRHS (Suc n) e lhs s =
        bind (ParseBinOpRHS n (p1 + 1) rhs s2) (\<lambda>r s3.
          case r of
            None \<Rightarrow> Returns None s3
          | Some rhs' \<Rightarrow>
              ParseBinOpRHS n e (BinaryExprAST (char_of (cur_token s)) lhs rhs') s3))
   \<and> (isdigit (of_char a) \<and> binop_of table o1 p1 \<and> isdigit (of_char b)
        \<and> list_all (\<lambda>(op, d). binop_of table op p2 \<and> isdigit (of_char d)) ps \<and> p1 < p2 \<longrightarrow>
      (\<exists>s'. parse_expression table (a # o1 # b # chain_text ps) (length ps + 3 + k)
           = Returns (Some (BinaryExprAST o1 (NumberExprAST (digit_value a))
                (left_nested (NumberExprAST (digit_value b)) ps))) s'
         \<and> cur_token s' = token_eof \<and> err s' = []))"
proof (intro conjI impI)
  show "\<exists>s'. parse_expression reference_table ''1+2*3'' (4 + k)
           = Returns (Some (BinaryExprAST CHR ''+'' (NumberExprAST 1)
               (BinaryExprAST CHR ''*'' (NumberExprAST 2) (NumberExprAST 3)))) s'
         \<and> cur_token s' = token_eof \<and> err s' = []"
    by (simp add: run_text)
next
  assume "registered_precedence (BinopPrecedence s) (cur_token s) = Some p1 \<and> e \<le> p1
        \<and> GetNextToken s = Returns t s1 \<and> ParsePrimary n s1 = Returns (Some rhs) s2
        \<and> registered_precedence (BinopPrecedence s2) (cur_token s2) = Some p2 \<and> p1 < p2"
  then show "ParseBinOpRHS (Suc n) e lhs s =
        bind (ParseBinOpRHS n (p1 + 1) rhs s2) (\<lambda>r s3.
          case r of
            None \<Rightarrow> Returns None s3
          | Some rhs' \<Rightarrow>
              ParseBinOpRHS n e (BinaryExprAST (char_of (cur_token s)) lhs rhs') s3)"
    using ParseBinOpRHS_higher_next [of s p1 e t s1 n rhs s2 p2 lhs] by blast
next
  assume "isdigit (of_char a) \<and> binop_of table o1 p1 \<and> isdigit (of_char b)
        \<and> list_all (\<lambda>(op, d). binop_of table op p2 \<and> isdigit (of_char d)) ps \<and> p1 < p2"
  then show "\<exists>s'. parse_expression table (a # o1 # b # chain_text ps) (length ps + 3 + k)
           = Returns (Some (BinaryExprAST o1 (NumberExprAST (digit_value a))
                (left_nested (NumberExprAST (digit_value b)) ps))) s'
         \<and> cur_token s' = token_eof \<and> err s' = []"
    using parse_expression_higher_chain [of a table o1 p1 b p2 ps k] by blast
qed

text \<open>
  The witness: the state of the parser on \<open>1+2*3\<close> when \<open>+\<close> is the lookahead, and
  the text \<open>8<1+2+3\<close>, where \<open><\<close> has precedence 10 and \<open>+\<close> has 20.
\<close>

definition after_one :: pstate where
  "after_one = positioned ''2*3''
     ((initial reference_table [])\<lparr>NUM_VAL := 1, cur_token := of_char CHR ''+''\<rparr>)"

definition after_plus :: pstate where
  "after_plus = positioned ''*3''
     ((initial reference_table [])\<lparr>NUM_VAL := 2, cur_token := token_number\<rparr>)"

definition after_two :: pstate where
  "after_two = positioned ''3''
     ((initial reference_table [])\<lparr>NUM_VAL := 2, cur_token := of_char CHR ''*''\<rparr>)"

theorem C1_higher_precedence_binds_first_witness:
  "registered_precedence (BinopPrecedence after_one) (cur_token after_one) = Some 20
   \<and> (0::int) \<le> 20
   \<and> GetNextToken after_one = Returns token_number after_plus
   \<and> ParsePrimary (Suc (Suc 0)) after_plus = Returns (Some (NumberExprAST 2)) after_two
   \<and> registered_precedence (BinopPrecedence after_two) (cur_token after_two) = Some 40
   \<and> (20::int) < 40
   \<and> ParseBinOpRHS (Suc (Suc (Suc 0))) 0 (NumberExprAST 1) after_one =
        bind (ParseBinOpRHS (Suc (Suc 0)) (20 + 1) (NumberExprAST 2) after_two) (\<lambda>r s3.
          case r of
            None \<Rightarrow> Returns None s3
          | Some rhs' \<Rightarrow>
              ParseBinOpRHS (Suc (Suc 0)) 0
                (BinaryExprAST (char_of (cur_token after_one)) (NumberExprAST 1) rhs') s3)
   \<and> isdigit (of_char CHR ''8'') \<and> binop_of reference_table CHR ''<'' 10
   \<and> isdigit (of_char CHR ''1'')
   \<and> list_all (\<lambda>(op, d). binop_of reference_table op 20 \<and> isdigit (of_char d))
        [(CHR ''+'', CHR ''2''), (CHR ''+'', CHR ''3'')]
   \<and> (\<exists>s'. parse_expression reference_table
               (CHR ''8'' # CHR ''<'' # CHR ''1'' # chain_text [(CHR ''+'', CHR ''2''), (CHR ''+'', CHR ''3'')])
               (length [(CHR ''+'', CHR ''2''), (CHR ''+'', CHR ''3'')] + 3 + 0)
           = Returns (Some (BinaryExprAST CHR ''<'' (NumberExprAST (digit_value CHR ''8''))
                (left_nested (NumberExprAST (digit_value CHR ''1''))
                   [(CHR ''+'', CHR ''2''), (CHR ''+'', CHR ''3'')]))) s'
         \<and> cur_token s' = token_eof \<and> err s' = [])"
proof -
  have h1: "registered_precedence (BinopPrecedence after_one) (cur_token after_one) = Some 20
      \<and> (0::int) \<le> 20
      \<and> GetNextToken after_one = Returns token_number after_plus
      \<and> ParsePrimary (Suc (Suc 0)) after_plus = Returns (Some (NumberExprAST 2)) after_two
      \<and> registered_precedence (BinopPrecedence after_two) (cur_token after_two) = Some 40
      \<and> (20::int) < 40"
    by (simp add: after_one_def after_plus_def after_two_def registered_precedence_def
        positioned_def run_text)
  have h2: "isdigit (of_char CHR ''8'') \<and> binop_of reference_table CHR ''<'' 10
      \<and> isdigit (of_char CHR ''1'')
      \<and> list_all (\<lambda>(op, d). binop_of reference_table op 20 \<and> isdigit (of_char d))
          [(CHR ''+'', CHR ''2''), (CHR ''+'', CHR ''3'')]
      \<and> (10::int) < 20"
    by (simp add: isdigit_def binop_of_def punct_def registered_precedence_def
        reference_table_def isascii_def isspace_def isalpha_def char_of_eq_char_iff)
  note step = C1_higher_precedence_binds_first
    [where s = after_one and ?p1.0 = 20 and e = 0 and t = token_number and ?s1.0 = after_plus
      and n = "Suc (Suc 0)" and rhs = "NumberExprAST 2" and ?s2.0 = after_two and ?p2.0 = 40
      and lhs = "NumberExprAST 1"]
  note chain = C1_higher_precedence_binds_first
    [where a = "CHR ''8''" and table = reference_table and ?o1.0 = "CHR ''<''" and ?p1.0 = 10
      and b = "CHR ''1''" and ps = "[(CHR ''+'', CHR ''2''), (CHR ''+'', CHR ''3'')]"
      and ?p2.0 = 20 and k = 0]
  show ?thesis
    using h1 h2 step chain by blast
qed

section \<open>Prototypes and definitions on a text\<close>

text \<open>The parameter names of a prototype as they are written: one space between two names.\<close>

fun join_names :: "string list \<Rightarrow> string" where
  "join_names [] = []"
| "join_names (p # ps) = p @ (if ps = [] then [] else CHR '' '' # join_names ps)"

lemma punct_close_paren [simp]: "punct CHR '')''" "punct CHR ''(''"
  by (simp_all add: punct_def isspace_def isalpha_def isdigit_def)

lemma punct_identifier_ends: "punct c \<Longrightarrow> identifier_ends (c # cs)"
  by (simp add: punct_def identifier_ends_def isalnum_def)

lemma space_identifier_ends: "isspace (of_char c) \<Longrightarrow> identifier_ends (c # cs)"
  by (auto simp: identifier_ends_def isalnum_def isspace_def isalpha_def isdigit_def)

lemma GetNextToken_space:
  "isspace (of_char c) \<Longrightarrow> GetNextToken (positioned (c # cs) s) = GetNextToken (positioned cs s)"
  by (simp add: GetNextToken_def GetToken_space)

lemma read_arg_names_space:
  "isspace (of_char c) \<Longrightarrow>
   read_arg_names acc (positioned (c # cs) s) = read_arg_names acc (positioned cs s)"
  by (subst read_arg_names.simps, subst (2) read_arg_names.simps)
    (simp add: GetNextToken_space)

lemma read_arg_names_run:
  assumes "list_all is_name ps"
  shows "\<exists>s'. read_arg_names acc (positioned (join_names ps @ CHR '')'' # rest) s)
           = Returns (acc @ ps) (positioned rest s')
         \<and> cur_token s' = of_char CHR '')'' \<and> NUM_VAL s' = NUM_VAL s
         \<and> BinopPrecedence s' = BinopPrecedence s \<and> err s' = err s"
  using assms
proof (induction ps arbitrary: acc s)
  case Nil
  have "read_arg_names acc (positioned (CHR '')'' # rest) s)
      = Returns acc (positioned rest (s\<lparr>cur_token := of_char CHR '')''\<rparr>))"
    by (subst read_arg_names.simps) (simp add: GetNextToken_def GetToken_punct)
  then show ?case
    by (intro exI [of _ "s\<lparr>cur_token := of_char CHR '')''\<rparr>"]) simp
next
  case (Cons p ps)
  then have p: "is_name p" and ps: "list_all is_name ps" by simp_all
  let ?cont = "(if ps = [] then [] else CHR '' '' # join_names ps) @ CHR '')'' # rest"
  let ?s1 = "s\<lparr>IDENTIFIER_STR := p, cur_token := token_identifier\<rparr>"
  have ends: "identifier_ends ?cont"
    by (simp add: punct_identifier_ends space_identifier_ends isspace_def)
  have "GetNextToken (positioned (p @ ?cont) s) = Returns token_identifier (positioned ?cont ?s1)"
    using GetToken_name [OF p ends, of s] by (simp add: GetNextToken_def)
  then have step: "read_arg_names acc (positioned (join_names (p # ps) @ CHR '')'' # rest) s)
      = read_arg_names (acc @ [p]) (positioned ?cont ?s1)"
    by (subst read_arg_names.simps) simp
  have "read_arg_names (acc @ [p]) (positioned ?cont ?s1)
      = read_arg_names (acc @ [p]) (positioned (join_names ps @ CHR '')'' # rest) ?s1)"
    by (cases "ps = []") (simp_all add: read_arg_names_space isspace_def)
  moreover from Cons.IH [OF ps, of "acc @ [p]" ?s1]
  obtain s' where "read_arg_names (acc @ [p]) (positioned (join_names ps @ CHR '')'' # rest) ?s1)
      = Returns ((acc @ [p]) @ ps) (positioned rest s')"
    and "cur_token s' = of_char CHR '')''" "NUM_VAL s' = NUM_VAL ?s1"
    "BinopPrecedence s' = BinopPrecedence ?s1" "err s' = err ?s1"
    by blast
  ultimately show ?case
    using step by (intro exI [of _ s']) simp
qed

lemma ParsePrototype_run:
  assumes "is_name f" and "list_all is_name ps"
    and "cur_token s = token_identifier" and "IDENTIFIER_STR s = f"
  shows "\<exists>s'. ParsePrototype (positioned (CHR ''('' # join_names ps @ CHR '')'' # rest) s)
           = bind (GetNextToken (positioned rest s'))
               (\<lambda>_ s3. Returns (Some (PrototypeAST f ps)) s3)
         \<and> NUM_VAL s' = NUM_VAL s \<and> BinopPrecedence s' = BinopPrecedence s \<and> err s' = err s"
proof -
  let ?s1 = "s\<lparr>cur_token := of_char CHR ''(''\<rparr>"
  have open_paren: "GetNextToken (positioned (CHR ''('' # join_names ps @ CHR '')'' # rest) s)
      = Returns (of_char CHR ''('') (positioned (join_names ps @ CHR '')'' # rest) ?s1)"
    by (simp add: GetNextToken_def GetToken_punct)
  from read_arg_names_run [OF assms(2), of "[]" rest ?s1]
  obtain s' where args: "read_arg_names [] (positioned (join_names ps @ CHR '')'' # rest) ?s1)
      = Returns ps (positioned rest s')"
    and s': "cur_token s' = of_char CHR '')''" "NUM_VAL s' = NUM_VAL s"
    "BinopPrecedence s' = BinopPrecedence s" "err s' = err s"
    by auto
  have "ParsePrototype (positioned (CHR ''('' # join_names ps @ CHR '')'' # rest) s)
      = bind (GetNextToken (positioned rest s')) (\<lambda>_ s3. Returns (Some (PrototypeAST f ps)) s3)"
    unfolding ParsePrototype_def
    using assms(3,4) open_paren args s'(1) by (simp add: Let_def)
  with s' show ?thesis by blast
qed


lemma GetToken_def_keyword:
  assumes "identifier_ends rest"
  shows "GetToken (positioned (''def'' @ rest) s)
     = Returns token_def (positioned rest (s\<lparr>IDENTIFIER_STR := ''def''\<rparr>))"
proof -
  have "scan_identifier (positioned (CHR ''d'' # ''ef'' @ rest) (s\<lparr>IDENTIFIER_STR := ''d''\<rparr>))
      = positioned rest (s\<lparr>IDENTIFIER_STR := ''d'' @ ''ef''\<rparr>)"
    using assms by (intro scan_identifier_run) (simp_all add: isalnum_def isalpha_def)
  moreover have "char_of (100::int) = CHR ''d''"
    by (simp add: char_of_eq_char_iff)
  ultimately show ?thesis
    by (subst GetToken.simps) (simp add: skip_space_id isspace_def isalpha_def Let_def)
qed

lemma parse_definition_digit_body:
  assumes f: "is_name f" and ps: "list_all is_name ps" and d: "isdigit (of_char d)"
  shows "\<exists>s'. parse_definition table
             (''def '' @ f @ CHR ''('' # join_names ps @ CHR '')'' # CHR '' '' # [d]) (2 + k)
           = Returns (Some (FunctionAST (PrototypeAST f ps) (NumberExprAST (digit_value d)))) s'
         \<and> cur_token s' = token_eof \<and> err s' = []"
proof -
  let ?proto = "CHR ''('' # join_names ps @ CHR '')'' # CHR '' '' # [d]"
  let ?i = "initial table []"
  \<comment> \<open>the keyword\<close>
  let ?s0 = "?i\<lparr>IDENTIFIER_STR := ''def'', cur_token := token_def\<rparr>"
  have "GetToken (initial table (''def '' @ f @ ?proto))
      = GetToken (positioned (''def'' @ CHR '' '' # f @ ?proto) ?i)"
    unfolding initial_positioned [of table "''def '' @ f @ ?proto"]
    using GetToken_space [of "CHR '' ''" "''def'' @ CHR '' '' # f @ ?proto" ?i]
    by (simp add: isspace_def)
  then have start: "start table (''def '' @ f @ ?proto)
      = Returns token_def (positioned (CHR '' '' # f @ ?proto) ?s0)"
    using GetToken_def_keyword [of "CHR '' '' # f @ ?proto" ?i]
    by (simp add: start_def GetNextToken_def space_identifier_ends isspace_def)
  \<comment> \<open>the name\<close>
  let ?s1 = "?i\<lparr>IDENTIFIER_STR := f, cur_token := token_identifier\<rparr>"
  have "GetNextToken (positioned (CHR '' '' # f @ ?proto) ?s0)
      = GetNextToken (positioned (f @ ?proto) ?s0)"
    by (rule GetNextToken_space) (simp add: isspace_def)
  also have "\<dots> = Returns token_identifier (positioned ?proto ?s1)"
    using GetToken_name [OF f, of ?proto ?s0]
    by (simp add: GetNextToken_def punct_identifier_ends)
  finally have name: "GetNextToken (positioned (CHR '' '' # f @ ?proto) ?s0)
      = Returns token_identifier (positioned ?proto ?s1)" .
  \<comment> \<open>the prototype\<close>
  from ParsePrototype_run [OF f ps, of ?s1 "CHR '' '' # [d]"]
  obtain s2 where proto: "ParsePrototype (positioned ?proto ?s1)
      = bind (GetNextToken (positioned (CHR '' '' # [d]) s2))
          (\<lambda>_ s3. Returns (Some (PrototypeAST f ps)) s3)"
    and s2: "NUM_VAL s2 = NUM_VAL ?s1" "BinopPrecedence s2 = BinopPrecedence ?s1"
      "err s2 = err ?s1"
    by auto
  \<comment> \<open>the body\<close>
  let ?s3 = "positioned [] (s2\<lparr>NUM_VAL := of_nat (of_char d - 48), cur_token := token_number\<rparr>)"
  have "GetNextToken (positioned (CHR '' '' # [d]) s2) = GetNextToken (positioned [d] s2)"
    by (rule GetNextToken_space) (simp add: isspace_def)
  also have "\<dots> = Returns token_number ?s3"
    using GetToken_digit [OF d, of "[]" s2]
    by (simp add: GetNextToken_def number_ends_def)
  finally have body_tok: "GetNextToken (positioned (CHR '' '' # [d]) s2)
      = Returns token_number ?s3" .
  let ?s4 = "positioned [] (s2\<lparr>NUM_VAL := of_nat (of_char d - 48), cur_token := token_eof\<rparr>)"
  have prim: "ParsePrimary (Suc k) ?s3 = Returns (Some (NumberExprAST (digit_value d))) ?s4"
    by (simp add: ParseNumberExpr_def GetNextToken_def GetToken_eof digit_value_def)
  have "ParseBinOpRHS (Suc k) 0 (NumberExprAST (digit_value d)) ?s4
      = Returns (Some (NumberExprAST (digit_value d))) ?s4"
    by (rule ParseBinOpRHS_at_eof) simp_all
  with prim have body: "ParseExpression (Suc (Suc k)) ?s3
      = Returns (Some (NumberExprAST (digit_value d))) ?s4"
    by (subst ParseExpression.simps) (simp del: ParsePrimary.simps ParseBinOpRHS.simps)
  have "parse_definition table (''def '' @ f @ ?proto) (Suc (Suc k))
      = Returns (Some (FunctionAST (PrototypeAST f ps) (NumberExprAST (digit_value d)))) ?s4"
    unfolding parse_definition_def ParseDefinition_def
    using start name proto body_tok body
    by (simp del: ParseExpression.simps)
  moreover have "cur_token ?s4 = token_eof" "err ?s4 = []"
    using s2(3) by (simp_all add: initial_def)
  ultimately show ?thesis by simp
qed

text \<open>
  Claim C9. \<open>def f(x y) x+y\<close> is parsed into the function \<open>f\<close> with the parameters
  \<open>x\<close>, \<open>y\<close> and the body \<open>x+y\<close>, and \<open>def f(x x) 1\<close> into the function with the
  parameters \<open>x\<close>, \<open>x\<close>. In general, for every name and every list of names, with or
  without repetitions: \<open>ParsePrototype\<close>, entered with the name as the lookahead and
  the lexer before the parenthesised names, reads the token after the closing
  parenthesis and returns the prototype with that name and those parameters in their
  order; and the definition with such a prototype and a one-digit body is parsed
  into the function with that prototype and that body.
\<close>

theorem C9_prototype_keeps_names_in_order:
  "(\<exists>s'. parse_definition reference_table ''def f(x y) x+y'' (4 + k)
           = Returns (Some (FunctionAST (PrototypeAST ''f'' [''x'', ''y''])
               (BinaryExprAST CHR ''+'' (VariableExprAST ''x'') (VariableExprAST ''y'')))) s'
         \<and> cur_token s' = token_eof \<and> err s' = [])
   \<and> (\<exists>s'. parse_definition reference_table ''def f(x x) 1'' (2 + k)
           = Returns (Some (FunctionAST (PrototypeAST ''f'' [''x'', ''x'']) (NumberExprAST 1))) s'
         \<and> cur_token s' = token_eof \<and> err s' = [])
   \<and> (is_name f \<and> list_all is_name ps \<and> cur_token s = token_identifier
        \<and> IDENTIFIER_STR s = f \<longrightarrow>
      (\<exists>s'. ParsePrototype (positioned (CHR ''('' # join_names ps @ CHR '')'' # rest) s)
           = bind (GetNextToken (positioned rest s'))
               (\<lambda>_ s3. Returns (Some (PrototypeAST f ps)) s3)
         \<and> NUM_VAL s' = NUM_VAL s \<and> BinopPrecedence s' = BinopPrecedence s
         \<and> err s' = err s))
   \<and> (is_name f \<and> list_all is_name ps \<and> isdigit (of_char d) \<longrightarrow>
      (\<exists>s'. parse_definition table
               (''def '' @ f @ CHR ''('' # join_names ps @ CHR '')'' # CHR '' '' # [d]) (2 + k)
           = Returns (Some (FunctionAST (PrototypeAST f ps) (NumberExprAST (digit_value d)))) s'
         \<and> cur_token s' = token_eof \<and> err s' = []))"
proof (intro conjI impI)
  show "\<exists>s'. parse_definition reference_table ''def f(x y) x+y'' (4 + k)
           = Returns (Some (FunctionAST (PrototypeAST ''f'' [''x'', ''y''])
               (BinaryExprAST CHR ''+'' (VariableExprAST ''x'') (VariableExprAST ''y'')))) s'
         \<and> cur_token s' = token_eof \<and> err s' = []"
    by (simp add: run_text)
next
  show "\<exists>s'. parse_definition reference_table ''def f(x x) 1'' (2 + k)
           = Returns (Some (FunctionAST (PrototypeAST ''f'' [''x'', ''x'']) (NumberExprAST 1))) s'
         \<and> cur_token s' = token_eof \<and> err s' = []"
    by (simp add: run_text)
next
  assume "is_name f \<and> list_all is_name ps \<and> cur_token s = token_identifier
    \<and> IDENTIFIER_STR s = f"
  then show "\<exists>s'. ParsePrototype (positioned (CHR ''('' # join_names ps @ CHR '')'' # rest) s)
           = bind (GetNextToken (positioned rest s'))
               (\<lambda>_ s3. Returns (Some (PrototypeAST f ps)) s3)
         \<and> NUM_VAL s' = NUM_VAL s \<and> BinopPrecedence s' = BinopPrecedence s
         \<and> err s' = err s"
    using ParsePrototype_run [of f ps s rest] by blast
next
  assume "is_name f \<and> list_all is_name ps \<and> isdigit (of_char d)"
  then show "\<exists>s'. parse_definition table
               (''def '' @ f @ CHR ''('' # join_names ps @ CHR '')'' # CHR '' '' # [d]) (2 + k)
           = Returns (Some (FunctionAST (PrototypeAST f ps) (NumberExprAST (digit_value d)))) s'
         \<and> cur_token s' = token_eof \<and> err s' = []"
    using parse_definition_digit_body [of f ps d table k] by blast
qed

text \<open>The witness: the prototype \<open>(x y)\<close> of \<open>f\<close> before \<open>x+y\<close>, and \<open>def g(a a b) 7\<close>.\<close>

definition after_f :: pstate where
  "after_f = (initial reference_table [])\<lparr>IDENTIFIER_STR := ''f'', cur_token := token_identifier\<rparr>"

theorem C9_prototype_keeps_names_in_order_witness:
  "is_name ''f'' \<and> list_all is_name [''x'', ''y''] \<and> cur_token after_f = token_identifier
   \<and> IDENTIFIER_STR after_f = ''f''
   \<and> (\<exists>s'. ParsePrototype
               (positioned (CHR ''('' # join_names [''x'', ''y''] @ CHR '')'' # '' x+y'') after_f)
           = bind (GetNextToken (positioned '' x+y'' s'))
               (\<lambda>_ s3. Returns (Some (PrototypeAST ''f'' [''x'', ''y''])) s3)
         \<and> NUM_VAL s' = NUM_VAL after_f \<and> BinopPrecedence s' = BinopPrecedence after_f
         \<and> err s' = err after_f)
   \<and> is_name ''g'' \<and> list_all is_name [''a'', ''a'', ''b''] \<and> isdigit (of_char CHR ''7'')
   \<and> (\<exists>s'. parse_definition reference_table
               (''def '' @ ''g'' @ CHR ''('' # join_names [''a'', ''a'', ''b'']
                  @ CHR '')'' # CHR '' '' # [CHR ''7'']) (2 + 0)
           = Returns (Some (FunctionAST (PrototypeAST ''g'' [''a'', ''a'', ''b''])
               (NumberExprAST (digit_value CHR ''7'')))) s'
         \<and> cur_token s' = token_eof \<and> err s' = [])"
proof -
  have h1: "is_name ''f'' \<and> list_all is_name [''x'', ''y'']
      \<and> cur_token after_f = token_identifier \<and> IDENTIFIER_STR after_f = ''f''"
    by (simp add: is_name_def isalpha_def after_f_def)
  have h2: "is_name ''g'' \<and> list_all is_name [''a'', ''a'', ''b'']
      \<and> isdigit (of_char CHR ''7'')"
    by (simp add: is_name_def isalpha_def isdigit_def)
  note proto = C9_prototype_keeps_names_in_order
    [where f = "''f''" and ps = "[''x'', ''y'']" and s = after_f and rest = "'' x+y''"]
  note defn = C9_prototype_keeps_names_in_order
    [where f = "''g''" and ps = "[''a'', ''a'', ''b'']" and d = "CHR ''7''"
      and table = reference_table and k = 0]
  show ?thesis
    using h1 h2 proto defn by blast
qed

section \<open>Calls\<close>

lemma ParseArgs_unexpected_token:
  assumes "ParseExpression n s = Returns (Some arg) s1"
    and "cur_token s1 \<noteq> of_char CHR '')''" and "cur_token s1 \<noteq> of_char CHR '',''"
  shows "ParseArgs (Suc n) args s
     = Returns None
         (fprintf_stderr (''Error: '' @ msg_expected_comma_or_close_paren @ [CHR 0x0A]) s1)"
  using assms by (simp add: LogError_def del: ParseExpression.simps)

lemma ParseIdentifierExpr_arguments_fail:
  assumes "GetNextToken s = Returns t s1" and "cur_token s1 = of_char CHR ''(''"
    and "GetNextToken s1 = Returns t' s2" and "cur_token s2 \<noteq> of_char CHR '')''"
    and "ParseArgs n [] s2 = Returns None s3"
  shows "ParseIdentifierExpr (Suc n) s = Returns None s3"
  using assms by (simp add: Let_def del: ParseArgs.simps)

text \<open>
  Claim C7. \<open>foo(1,2)\<close> is parsed into the call of \<open>foo\<close> with the arguments 1 and 2 in
  this order, \<open>foo()\<close> into the call with no argument. When the token after a parsed
  argument is neither \<open>,\<close> nor \<open>)\<close> the argument loop prints the message
  \<open>Expected ')' or ',' in argument list\<close> and returns the null pointer, and so does
  the parse of the call, as \<open>foo(1 2)\<close> shows; a comma before the closing parenthesis
  is not accepted either: \<open>foo(1,)\<close> fails in the expression that has to follow the
  comma.
\<close>

theorem C7_call_arguments:
  "(\<exists>s'. parse_expression reference_table ''foo(1,2)'' (7 + k)
           = Returns (Some (CallExprAST ''foo'' [NumberExprAST 1, NumberExprAST 2])) s'
         \<and> cur_token s' = token_eof \<and> err s' = [])
   \<and> (\<exists>s'. parse_expression reference_table ''foo()'' (3 + k)
           = Returns (Some (CallExprAST ''foo'' [])) s'
         \<and> cur_token s' = token_eof \<and> err s' = [])
   \<and> (ParseExpression n s = Returns (Some arg) s1
        \<and> cur_token s1 \<noteq> of_char CHR '')'' \<and> cur_token s1 \<noteq> of_char CHR '','' \<longrightarrow>
      ParseArgs (Suc n) args s
        = Returns None
            (fprintf_stderr (''Error: '' @ msg_expected_comma_or_close_paren @ [CHR 0x0A]) s1))
   \<and> (GetNextToken s = Returns t s1 \<and> cur_token s1 = of_char CHR ''(''
        \<and> GetNextToken s1 = Returns t' s2 \<and> cur_token s2 \<noteq> of_char CHR '')''
        \<and> ParseArgs n [] s2 = Returns None s3 \<longrightarrow>
      ParseIdentifierExpr (Suc n) s = Returns None s3)
   \<and> (\<exists>s'. parse_expression reference_table ''foo(1 2)'' (6 + k) = Returns None s'
         \<and> err s' = [''Error: '' @ msg_expected_comma_or_close_paren @ [CHR 0x0A]])
   \<and> (\<exists>s'. parse_expression reference_table ''foo(1,)'' (7 + k) = Returns None s'
         \<and> err s' = [''Error: '' @ msg_unknown_token @ [CHR 0x0A]])"
proof (intro conjI impI)
  show "\<exists>s'. parse_expression reference_table ''foo(1,2)'' (7 + k)
           = Returns (Some (CallExprAST ''foo'' [NumberExprAST 1, NumberExprAST 2])) s'
         \<and> cur_token s' = token_eof \<and> err s' = []"
    by (simp add: run_text)
next
  show "\<exists>s'. parse_expression reference_table ''foo()'' (3 + k)
           = Returns (Some (CallExprAST ''foo'' [])) s'
         \<and> cur_token s' = token_eof \<and> err s' = []"
    by (simp add: run_text)
next
  assume "ParseExpression n s = Returns (Some arg) s1
    \<and> cur_token s1 \<noteq> of_char CHR '')'' \<and> cur_token s1 \<noteq> of_char CHR '',''"
  then show "ParseArgs (Suc n) args s
        = Returns None
            (fprintf_stderr (''Error: '' @ msg_expected_comma_or_close_paren @ [CHR 0x0A]) s1)"
    using ParseArgs_unexpected_token [of n s arg s1 args] by blast
next
  assume "GetNextToken s = Returns t s1 \<and> cur_token s1 = of_char CHR ''(''
    \<and> GetNextToken s1 = Returns t' s2 \<and> cur_token s2 \<noteq> of_char CHR '')''
    \<and> ParseArgs n [] s2 = Returns None s3"
  then show "ParseIdentifierExpr (Suc n) s = Returns None s3"
    using ParseIdentifierExpr_arguments_fail [of s t s1 t' s2 n s3] by blast
next
  show "\<exists>s'. parse_expression reference_table ''foo(1 2)'' (6 + k) = Returns None s'
         \<and> err s' = [''Error: '' @ msg_expected_comma_or_close_paren @ [CHR 0x0A]]"
    by (simp add: run_text)
next
  show "\<exists>s'. parse_expression reference_table ''foo(1,)'' (7 + k) = Returns None s'
         \<and> err s' = [''Error: '' @ msg_unknown_token @ [CHR 0x0A]]"
    by (simp add: run_text)
qed

text \<open>
  The witness: the states of the parser on \<open>foo(1 2)\<close>, with \<open>foo\<close>, with \<open>(\<close>, with
  the number 1 and with the number 2 as the lookahead.
\<close>

definition at_callee :: pstate where
  "at_callee = positioned ''(1 2)''
     ((initial reference_table [])\<lparr>IDENTIFIER_STR := ''foo'', cur_token := token_identifier\<rparr>)"

definition at_open_paren :: pstate where
  "at_open_paren = positioned ''1 2)''
     ((initial reference_table [])\<lparr>IDENTIFIER_STR := ''foo'', cur_token := of_char CHR ''(''\<rparr>)"

definition at_first_argument :: pstate where
  "at_first_argument = positioned '' 2)''
     ((initial reference_table [])
        \<lparr>IDENTIFIER_STR := ''foo'', NUM_VAL := 1, cur_token := token_number\<rparr>)"

definition at_second_argument :: pstate where
  "at_second_argument = positioned '')''
     ((initial reference_table [])
        \<lparr>IDENTIFIER_STR := ''foo'', NUM_VAL := 2, cur_token := token_number\<rparr>)"

theorem C7_call_arguments_witness:
  "ParseExpression (Suc (Suc 0)) at_first_argument
     = Returns (Some (NumberExprAST 1)) at_second_argument
   \<and> cur_token at_second_argument \<noteq> of_char CHR '')''
   \<and> cur_token at_second_argument \<noteq> of_char CHR '',''
   \<and> ParseArgs (Suc (Suc (Suc 0))) [] at_first_argument
        = Returns None
            (fprintf_stderr (''Error: '' @ msg_expected_comma_or_close_paren @ [CHR 0x0A])
               at_second_argument)
   \<and> GetNextToken at_callee = Returns (of_char CHR ''('') at_open_paren
   \<and> cur_token at_open_paren = of_char CHR ''(''
   \<and> GetNextToken at_open_paren = Returns token_number at_first_argument
   \<and> cur_token at_first_argument \<noteq> of_char CHR '')''
   \<and> ParseIdentifierExpr (Suc (Suc (Suc (Suc 0)))) at_callee
        = Returns None
            (fprintf_stderr (''Error: '' @ msg_expected_comma_or_close_paren @ [CHR 0x0A])
               at_second_argument)"
proof -
  let ?failed = "fprintf_stderr (''Error: '' @ msg_expected_comma_or_close_paren @ [CHR 0x0A])
      at_second_argument"
  have h: "ParseExpression (Suc (Suc 0)) at_first_argument
       = Returns (Some (NumberExprAST 1)) at_second_argument"
    "cur_token at_second_argument \<noteq> of_char CHR '')''"
    "cur_token at_second_argument \<noteq> of_char CHR '',''"
    by (simp_all add: at_first_argument_def at_second_argument_def positioned_def run_text)
  have arguments: "ParseArgs (Suc (Suc (Suc 0))) [] at_first_argument = Returns None ?failed"
    using h
      C7_call_arguments [where n = "Suc (Suc 0)" and s = at_first_argument
        and arg = "NumberExprAST 1" and ?s1.0 = at_second_argument and args = "[]"]
    by blast
  have g: "GetNextToken at_callee = Returns (of_char CHR ''('') at_open_paren"
    "cur_token at_open_paren = of_char CHR ''(''"
    "GetNextToken at_open_paren = Returns token_number at_first_argument"
    "cur_token at_first_argument \<noteq> of_char CHR '')''"
    by (simp_all add: at_callee_def at_open_paren_def at_first_argument_def positioned_def
        run_text)
  have call: "ParseIdentifierExpr (Suc (Suc (Suc (Suc 0)))) at_callee = Returns None ?failed"
    using g arguments
      C7_call_arguments [where n = "Suc (Suc (Suc 0))" and s = at_callee
        and t = "of_char CHR ''(''" and ?s1.0 = at_open_paren and t' = token_number
        and ?s2.0 = at_first_argument and ?s3.0 = ?failed]
    by blast
  show ?thesis
    using h arguments g call by (intro conjI)
qed

section \<open>Failures and their diagnostics\<close>

text \<open>
  The lexer prints nothing. A parse function that returns the null pointer has
  printed exactly one line, which starts with \<open>Error: \<close>; one that returns a node
  has printed nothing. \<open>one_diagnostic s m\<close> says this of the outcome \<open>m\<close> of a call
  entered in the state \<open>s\<close>.
\<close>

lemma err_read_last_char [simp]: "err (read_last_char s) = err s"
  by (simp add: read_last_char_def getchar_def split: list.splits)

lemma err_skip_space [simp]: "err (skip_space s) = err s"
  by (induction s rule: skip_space.induct) (subst skip_space.simps, simp)

lemma err_skip_comment [simp]: "err (skip_comment s) = err s"
  by (induction s rule: skip_comment.induct) (subst skip_comment.simps, simp)

lemma err_scan_identifier [simp]: "err (scan_identifier s) = err s"
  by (induction s rule: scan_identifier.induct)
    (subst scan_identifier.simps, simp add: Let_def)





definition one_diagnostic :: "pstate \<Rightarrow> 'a option outcome \<Rightarrow> bool" where
  "one_diagnostic s m =
     (case m of
        Returns r s' \<Rightarrow>
          (case r of
             None \<Rightarrow> (\<exists>msg. err s' = err s @ [''Error: '' @ msg @ [CHR 0x0A]])
           | Some _ \<Rightarrow> err s' = err s)
      | Throws e \<Rightarrow> True
      | OutOfFuel \<Rightarrow> True)"

lemma one_diagnostic_simps [simp]:
  "one_diagnostic s (Returns (Some x) s') \<longleftrightarrow> err s' = err s"
  "one_diagnostic s (Returns None s') \<longleftrightarrow> (\<exists>msg. err s' = err s @ [''Error: '' @ msg @ [CHR 0x0A]])"
  "one_diagnostic s (Throws e)" "one_diagnostic s OutOfFuel"
  by (simp_all add: one_diagnostic_def)

























section \<open>Progress and termination of the top-level loop\<close>

text \<open>
  What is left for the parser: what is left to read, and the lookahead unless it is
  the end of input. Reading a token never makes it more, and makes it less whenever
  the lookahead is not the end of input.
\<close>

definition remaining :: "pstate \<Rightarrow> nat" where
  "remaining s = pending s + (if cur_token s = token_eof then 0 else 1)"

lemma remaining_updates [simp]:
  "remaining (s\<lparr>err := e\<rparr>) = remaining s"
  "remaining (s\<lparr>BinopPrecedence := b\<rparr>) = remaining s"
  "remaining (s\<lparr>NUM_VAL := v\<rparr>) = remaining s"
  "remaining (s\<lparr>IDENTIFIER_STR := i\<rparr>) = remaining s"
  by (simp_all add: remaining_def)

lemma remaining_fprintf_stderr [simp]: "remaining (fprintf_stderr str s) = remaining s"
  by (simp add: fprintf_stderr_def)

lemma cur_token_fprintf_stderr [simp]: "cur_token (fprintf_stderr str s) = cur_token s"
  by (simp add: fprintf_stderr_def)

lemma remaining_GetNextToken:
  assumes "GetNextToken s = Returns t s'"
  shows "remaining s' \<le> remaining s \<and> (cur_token s \<noteq> token_eof \<longrightarrow> remaining s' < remaining s)"
proof -
  from assms have p: "pending s' \<le> pending s" "t \<noteq> token_eof \<longrightarrow> pending s' < pending s"
    by (auto dest: GetNextToken_pending)
  from assms have "cur_token s' = t" by (rule GetNextToken_cur_token)
  with p show ?thesis by (auto simp: remaining_def)
qed

lemma remaining_GetTokenPrecedence [simp]:
  "remaining (snd (GetTokenPrecedence s)) = remaining s"
  by (simp add: remaining_def pending_def)

lemma GetToken_halts: "GetToken s0 \<noteq> OutOfFuel"
proof (induction s0 rule: GetToken.induct)
  case (1 s0)
  define s where "s = skip_space s0"
  show ?case
  proof (cases "\<not> isalpha (last_char s) \<and> \<not> (isdigit (last_char s) \<or> last_char s = of_char CHR ''.'')
      \<and> last_char s = of_char CHR ''#'' \<and> last_char (skip_comment (read_last_char s)) \<noteq> EOF")
    case True
    then have "GetToken (skip_comment (read_last_char s)) \<noteq> OutOfFuel"
      using "1.IH" [OF s_def] by blast
    with True show ?thesis
      by (subst GetToken.simps) (simp add: s_def [symmetric] Let_def isdigit_def isalpha_def)
  next
    case False
    then show ?thesis
      by (subst GetToken.simps)
        (auto simp: s_def [symmetric] Let_def split: prod.splits sum.splits)
  qed
qed

lemma GetNextToken_halts: "GetNextToken s \<noteq> OutOfFuel"
  using GetToken_halts [of s] by (cases "GetToken s") (simp_all add: GetNextToken_def)

text \<open>
  No call gives input back: \<open>keeps s m\<close> says that the state in which the outcome \<open>m\<close>
  returns has no more left to read than the state \<open>s\<close>.
\<close>

definition keeps :: "pstate \<Rightarrow> 'a outcome \<Rightarrow> bool" where
  "keeps s m = (case m of Returns r s' \<Rightarrow> remaining s' \<le> remaining s | Throws e \<Rightarrow> True
     | OutOfFuel \<Rightarrow> True)"

lemma keeps_simps [simp]:
  "keeps s (Returns r s') \<longleftrightarrow> remaining s' \<le> remaining s"
  "keeps s (Throws e)" "keeps s OutOfFuel"
  by (simp_all add: keeps_def)

lemma keeps_from: "remaining s1 \<le> remaining s \<Longrightarrow> keeps s1 m \<Longrightarrow> keeps s m"
  by (cases m) simp_all

lemma keeps_bind:
  assumes "keeps s m" and "\<And>x s1. remaining s1 \<le> remaining s \<Longrightarrow> keeps s1 (f x s1)"
  shows "keeps s (bind m f)"
proof (cases m)
  case (Returns x s1)
  with assms(1) have le: "remaining s1 \<le> remaining s" by simp
  from keeps_from [OF le assms(2) [OF le, of x]] show ?thesis by (simp add: Returns)
qed simp_all

lemma keeps_token: "keeps s (GetNextToken s)"
  by (cases "GetNextToken s") (auto dest: remaining_GetNextToken)

lemma keeps_LogError: "keeps s (LogError msg s)"
  by (simp add: LogError_def)


lemma keeps_precedence:
  assumes "\<And>p s1. remaining s1 \<le> remaining s \<Longrightarrow> keeps s1 (f p s1)"
  shows "keeps s (case GetTokenPrecedence s of (p, s1) \<Rightarrow> f p s1)"
proof (cases "GetTokenPrecedence s")
  case (Pair p s1)
  then have e: "remaining s1 = remaining s"
    using remaining_GetTokenPrecedence [of s] by simp
  then have le: "remaining s1 \<le> remaining s" by simp
  from keeps_from [OF le assms [OF le, of p]] show ?thesis by (simp add: Pair)
qed

lemma keeps_parsers:
  "(\<forall>s. keeps s (ParseParenExpr n s))
   \<and> (\<forall>args s. keeps s (ParseArgs n args s))
   \<and> (\<forall>s. keeps s (ParseIdentifierExpr n s))
   \<and> (\<forall>s. keeps s (ParsePrimary n s))
   \<and> (\<forall>s. keeps s (ParseExpression n s))
   \<and> (\<forall>e lhs s. keeps s (ParseBinOpRHS n e lhs s))"
proof (induction n)
  case 0
  show ?case by simp
next
  case (Suc n)
  then have paren: "\<And>s. keeps s (ParseParenExpr n s)"
    and args: "\<And>args s. keeps s (ParseArgs n args s)"
    and ident: "\<And>s. keeps s (ParseIdentifierExpr n s)"
    and prim: "\<And>s. keeps s (ParsePrimary n s)"
    and expr: "\<And>s. keeps s (ParseExpression n s)"
    and rhs: "\<And>e lhs s. keeps s (ParseBinOpRHS n e lhs s)"
    by blast+
  have 1: "keeps s (ParseParenExpr (Suc n) s)" for s
    unfolding ParseParenExpr.simps
    by (intro keeps_bind keeps_token expr)
      (auto intro!: keeps_bind keeps_token keeps_LogError split: option.splits)
  have 2: "keeps s (ParseArgs (Suc n) args s)" for args s
    unfolding ParseArgs.simps
    by (intro keeps_bind expr)
      (auto intro!: keeps_bind keeps_token keeps_LogError args split: option.splits)
  have 3: "keeps s (ParseIdentifierExpr (Suc n) s)" for s
    unfolding ParseIdentifierExpr.simps Let_def
    by (intro keeps_bind keeps_token)
      (auto intro!: keeps_bind keeps_token args split: option.splits)
  have 4: "keeps s (ParsePrimary (Suc n) s)" for s
    unfolding ParsePrimary.simps ParseNumberExpr_def Let_def
    by (auto intro!: keeps_bind keeps_token keeps_LogError ident paren)
  have 5: "keeps s (ParseExpression (Suc n) s)" for s
    unfolding ParseExpression.simps
    by (intro keeps_bind prim) (auto intro!: rhs split: option.splits)
  have 6: "keeps s (ParseBinOpRHS (Suc n) e lhs s)" for e lhs s
    unfolding ParseBinOpRHS.simps Let_def
    by (intro keeps_precedence)
      (auto intro!: keeps_bind keeps_token keeps_precedence prim rhs split: option.splits)
  from 1 2 3 4 5 6 show ?case by blast
qed


text \<open>
  Fuel that is enough. Between two tokens at most four calls are nested, so four
  units of fuel for each unit of \<open>remaining\<close>, and a few more, let every call return.
\<close>

lemma keepsD: "keeps s m \<Longrightarrow> m = Returns r s' \<Longrightarrow> remaining s' \<le> remaining s"
  by simp

lemmas ParseParenExpr_keeps = keeps_parsers [THEN conjunct1, rule_format, THEN keepsD]
lemmas ParseArgs_keeps = keeps_parsers [THEN conjunct2, THEN conjunct1, rule_format, THEN keepsD]
lemmas ParseIdentifierExpr_keeps =
  keeps_parsers [THEN conjunct2, THEN conjunct2, THEN conjunct1, rule_format, THEN keepsD]


lemma token_then_Returns_halts [simp]: "bind (GetNextToken s) (\<lambda>_. Returns c) \<noteq> OutOfFuel"
  using GetNextToken_halts [of s] by (cases "GetNextToken s") simp_all





lemmas keeps_paren = keeps_parsers [THEN conjunct1, rule_format]






























end
